theory Spec2Isabelle
  imports Complex_Main "HOL-Library.Word"
begin

section \<open>JavaScript strings\<close>

text \<open>
  A JavaScript string is a sequence of UTF-16 code units. The regular expressions of
  \<^verbatim>\<open>printer.js\<close> carry no \<^verbatim>\<open>u\<close> flag, so they read the string one code unit at a
  time; a code unit is a 16-bit word.
\<close>

type_synonym jschar = "16 word"
type_synonym jsstring = "jschar list"

definition js :: "string \<Rightarrow> jsstring" where
  "js s = map of_char s"

abbreviation quoteChar :: jschar where "quoteChar \<equiv> 0x22"
abbreviation hashChar :: jschar where "hashChar \<equiv> 0x23"
abbreviation starChar :: jschar where "starChar \<equiv> 0x2A"
abbreviation semicolonChar :: jschar where "semicolonChar \<equiv> 0x3B"
abbreviation backslashChar :: jschar where "backslashChar \<equiv> 0x5C"
abbreviation spaceChar :: jschar where "spaceChar \<equiv> 0x20"

text \<open>\<^verbatim>\<open>String.prototype.startsWith\<close>, \<^verbatim>\<open>endsWith\<close>, \<^verbatim>\<open>includes\<close>, \<^verbatim>\<open>repeat\<close> and the
  two slices the printer uses (\<^verbatim>\<open>slice(0, -1)\<close> and \<^verbatim>\<open>slice(1)\<close>).\<close>

definition startsWith :: "jsstring \<Rightarrow> jsstring \<Rightarrow> bool" where
  "startsWith s p = (take (length p) s = p)"

definition endsWith :: "jsstring \<Rightarrow> jsstring \<Rightarrow> bool" where
  "endsWith s p = (length p \<le> length s \<and> drop (length s - length p) s = p)"

fun js_includes :: "jsstring \<Rightarrow> jsstring \<Rightarrow> bool" where
  "js_includes [] p = (p = [])"
| "js_includes (c # cs) p = (startsWith (c # cs) p \<or> js_includes cs p)"

definition repeat :: "jschar \<Rightarrow> nat \<Rightarrow> jsstring" where
  "repeat c n = replicate n c"

definition sliceDropLast :: "jsstring \<Rightarrow> jsstring" where
  "sliceDropLast s = butlast s"

definition sliceFrom1 :: "jsstring \<Rightarrow> jsstring" where
  "sliceFrom1 s = drop 1 s"

text \<open>The character class shared by \<^verbatim>\<open>trimStart\<close> and \<^verbatim>\<open>trimEnd\<close>: space, tab,
  U+FEFF, U+00A0, U+1680, U+2000 to U+200A, U+202F, U+205F and U+3000.\<close>

definition inlineSpace :: "jschar \<Rightarrow> bool" where
  "inlineSpace c = (c = 0x20 \<or> c = 0x09 \<or> c = 0xFEFF \<or> c = 0xA0 \<or> c = 0x1680
     \<or> (0x2000 \<le> c \<and> c \<le> 0x200A) \<or> c = 0x202F \<or> c = 0x205F \<or> c = 0x3000)"

definition trimStart :: "jsstring \<Rightarrow> jsstring" where
  "trimStart line = dropWhile inlineSpace line"

definition trimEnd :: "jsstring \<Rightarrow> jsstring" where
  "trimEnd line = rev (dropWhile inlineSpace (rev line))"

definition trim :: "jsstring \<Rightarrow> jsstring" where
  "trim line = trimEnd (trimStart line)"

text \<open>\<^verbatim>\<open>text.split\<close> on the expression that matches a carriage return followed by a
  line feed, or one of the code units 0A, 0C, 0D, 85, 2028, 2029: the pieces between line
  terminators. The result always has at least one piece.\<close>

definition lineTerminator :: "jschar \<Rightarrow> bool" where
  "lineTerminator c = (c = 0x0A \<or> c = 0x0C \<or> c = 0x0D \<or> c = 0x85 \<or> c = 0x2028 \<or> c = 0x2029)"

fun splitLines :: "jsstring \<Rightarrow> jsstring list" where
  "splitLines [] = [[]]"
| "splitLines [c] = (if lineTerminator c then [[], []] else [[c]])"
| "splitLines (c # d # cs) =
     (if c = 0x0D \<and> d = 0x0A then [] # splitLines cs
      else if lineTerminator c then [] # splitLines (d # cs)
      else (case splitLines (d # cs) of
              [] \<Rightarrow> [[c]]
            | l # ls \<Rightarrow> (c # l) # ls))"

section \<open>The document tree of the parser\<close>

text \<open>
  The tree comes from the parser package; the printer only reads it. A number is a
  JavaScript \<^verbatim>\<open>Number\<close>: not-a-number, an infinity, or a finite value, kept here as the
  rational it denotes.
\<close>

datatype jsnumber = NaN | Infinity bool | Finite rat

datatype jsvalue = VNull | VBoolean bool | VString jsstring | VNumber jsnumber

text \<open>
  The tests that \<^verbatim>\<open>printValue\<close> makes on a number, and \<^verbatim>\<open>Number.prototype.toString\<close>.
  The conversion gives the shortest decimal digits that read back as the same double. An
  integer of magnitude below \<open>2\<^sup>5\<^sup>3\<close> is a double of its own and so is every integer
  around it, so that no shorter row of digits filled up with zeros reads back as it: its
  digits are all the digits of the integer. For every other finite value the digits depend
  on the binary representation of the double, which is not kept here; that part
  of the conversion is taken from outside, as \<open>doubleToString\<close>. Negative zero is the
  value 0 and is converted to \<^verbatim>\<open>0\<close>.
\<close>

definition Number_isNaN :: "jsnumber \<Rightarrow> bool" where
  "Number_isNaN x = (x = NaN)"

definition Number_isFinite :: "jsnumber \<Rightarrow> bool" where
  "Number_isFinite x = (case x of Finite _ \<Rightarrow> True | _ \<Rightarrow> False)"

definition ltZero :: "jsnumber \<Rightarrow> bool" where
  "ltZero x = (case x of NaN \<Rightarrow> False | Infinity neg \<Rightarrow> neg | Finite q \<Rightarrow> q < 0)"

fun decimalDigits :: "nat \<Rightarrow> jsstring" where
  "decimalDigits n =
     (if n < 10 then [of_nat (48 + n)]
      else decimalDigits (n div 10) @ [of_nat (48 + n mod 10)])"

declare decimalDigits.simps [simp del]

definition integral :: "rat \<Rightarrow> bool" where
  "integral q = (of_int \<lfloor>q\<rfloor> = q)"

definition safeInteger :: "rat \<Rightarrow> bool" where
  "safeInteger q = (integral q \<and> \<bar>q\<bar> < 2 ^ 53)"

definition Number_toString :: "(rat \<Rightarrow> jsstring) \<Rightarrow> jsnumber \<Rightarrow> jsstring" where
  "Number_toString doubleToString x =
     (case x of
        NaN \<Rightarrow> js ''NaN''
      | Infinity neg \<Rightarrow> (if neg then js ''-Infinity'' else js ''Infinity'')
      | Finite q \<Rightarrow>
          if safeInteger q
          then (if q < 0 then js ''-'' else []) @ decimalDigits (nat \<bar>\<lfloor>q\<rfloor>\<bar>)
          else doubleToString q)"

text \<open>\<^verbatim>\<open>JSON.stringify\<close> of a string (QuoteJSONString of ECMA-262): the short escapes,
  a four-digit hexadecimal escape for the other control characters and for a surrogate that stands alone,
  every other code unit as it is, all between two double quotes.\<close>

definition hexDigit :: "nat \<Rightarrow> jschar" where
  "hexDigit n = (if n < 10 then of_nat (48 + n) else of_nat (87 + n))"

definition unicodeEscape :: "jschar \<Rightarrow> jsstring" where
  "unicodeEscape c =
     [backslashChar, 0x75,
      hexDigit (unat c div 4096 mod 16), hexDigit (unat c div 256 mod 16),
      hexDigit (unat c div 16 mod 16), hexDigit (unat c mod 16)]"

definition leadingSurrogate :: "jschar \<Rightarrow> bool" where
  "leadingSurrogate c = (0xD800 \<le> c \<and> c \<le> 0xDBFF)"

definition trailingSurrogate :: "jschar \<Rightarrow> bool" where
  "trailingSurrogate c = (0xDC00 \<le> c \<and> c \<le> 0xDFFF)"

definition quoteJSONChar :: "jschar \<Rightarrow> jsstring" where
  "quoteJSONChar c =
     (if c = 0x08 then [backslashChar, 0x62]
      else if c = 0x09 then [backslashChar, 0x74]
      else if c = 0x0A then [backslashChar, 0x6E]
      else if c = 0x0C then [backslashChar, 0x66]
      else if c = 0x0D then [backslashChar, 0x72]
      else if c = quoteChar then [backslashChar, quoteChar]
      else if c = backslashChar then [backslashChar, backslashChar]
      else if c < 0x20 \<or> leadingSurrogate c \<or> trailingSurrogate c then unicodeEscape c
      else [c])"

fun quoteJSONBody :: "jsstring \<Rightarrow> jsstring" where
  "quoteJSONBody [] = []"
| "quoteJSONBody [c] = quoteJSONChar c"
| "quoteJSONBody (c # d # cs) =
     (if leadingSurrogate c \<and> trailingSurrogate d then c # d # quoteJSONBody cs
      else quoteJSONChar c @ quoteJSONBody (d # cs))"

definition JSON_stringify :: "jsstring \<Rightarrow> jsstring" where
  "JSON_stringify s = [quoteChar] @ quoteJSONBody s @ [quoteChar]"

section \<open>Literal canonicalizer\<close>

text \<open>The loop shared by \<^verbatim>\<open>printValue\<close> and \<^verbatim>\<open>printIdentifier\<close>:
  it counts \<^verbatim>\<open>numberOfHashes\<close> up while the string includes a double quote followed by that many hashes.\<close>

lemma js_includes_length: "js_includes s p \<Longrightarrow> length p \<le> length s"
proof (induction s)
  case Nil
  then show ?case by simp
next
  case (Cons c cs)
  then show ?case
  proof (cases "startsWith (c # cs) p")
    case True
    then have "length (take (length p) (c # cs)) = length p"
      by (simp add: startsWith_def)
    then show ?thesis by (simp add: min_def split: if_splits)
  next
    case False
    with Cons show ?thesis by simp
  qed
qed

function hashLoop :: "jsstring \<Rightarrow> nat \<Rightarrow> nat" where
  "hashLoop raw n =
     (if js_includes raw (quoteChar # repeat hashChar n) then hashLoop raw (n + 1) else n)"
  by pat_completeness auto
termination
proof (relation "measure (\<lambda>(raw, n). length raw - n)")
  show "wf (measure (\<lambda>(raw, n). length raw - n))" by simp
next
  fix raw :: jsstring and n :: nat
  assume "js_includes raw (quoteChar # repeat hashChar n)"
  then have "Suc n \<le> length raw"
    using js_includes_length by (fastforce simp: repeat_def)
  then show "((raw, n + 1), (raw, n)) \<in> measure (\<lambda>(raw, n). length raw - n)"
    by simp
qed

declare hashLoop.simps [simp del]

definition numberOfHashes :: "jsstring \<Rightarrow> nat" where
  "numberOfHashes raw = hashLoop raw 0"

text \<open>\<^verbatim>\<open>printValue\<close>: the switch on \<^verbatim>\<open>typeof rawValue\<close>.\<close>

fun printValue :: "(rat \<Rightarrow> jsstring) \<Rightarrow> jsvalue \<Rightarrow> jsstring" where
  "printValue ts VNull = js ''#null''"
| "printValue ts (VBoolean b) = js ''#'' @ (if b then js ''true'' else js ''false'')"
| "printValue ts (VString rawValue) =
     (let n = numberOfHashes rawValue
      in if n = 0 then JSON_stringify rawValue
         else repeat hashChar n @ [quoteChar] @ rawValue @ [quoteChar] @ repeat hashChar n)"
| "printValue ts (VNumber rawValue) =
     (if Number_isNaN rawValue then js ''#nan''
      else if \<not> Number_isFinite rawValue then (if ltZero rawValue then js ''#-inf'' else js ''#inf'')
      else Number_toString ts rawValue)"

text \<open>\<^verbatim>\<open>plainIdentifierRe\<close>: no sign followed by a digit at the start, one code unit of the
  first class, then code units of the continuation class up to the end of the string.\<close>

definition identifierStart :: "jschar \<Rightarrow> bool" where
  "identifierStart c = (c = 0x21 \<or> (0x23 \<le> c \<and> c \<le> 0x27) \<or> c = 0x2A \<or> c = 0x2B
     \<or> c = 0x2D \<or> c = 0x2E \<or> c = 0x3A \<or> (0x3F \<le> c \<and> c \<le> 0x5A)
     \<or> (0x5E \<le> c \<and> c \<le> 0x7A) \<or> c = 0x7C \<or> (0x7E \<le> c \<and> c \<le> 0xFFFF))"

definition identifierContinue :: "jschar \<Rightarrow> bool" where
  "identifierContinue c = (c = 0x21 \<or> (0x23 \<le> c \<and> c \<le> 0x27) \<or> c = 0x2A \<or> c = 0x2B
     \<or> c = 0x2D \<or> c = 0x2E \<or> (0x30 \<le> c \<and> c \<le> 0x3A) \<or> (0x3F \<le> c \<and> c \<le> 0x5A)
     \<or> (0x5E \<le> c \<and> c \<le> 0x7A) \<or> c = 0x7C \<or> (0x7E \<le> c \<and> c \<le> 0xFFFF))"

definition signThenDigit :: "jsstring \<Rightarrow> bool" where
  "signThenDigit s =
     (case s of
        c # d # _ \<Rightarrow> (c = 0x2B \<or> c = 0x2D) \<and> 0x30 \<le> d \<and> d \<le> 0x39
      | _ \<Rightarrow> False)"

definition plainIdentifierRe :: "jsstring \<Rightarrow> bool" where
  "plainIdentifierRe s =
     (case s of
        [] \<Rightarrow> False
      | c # cs \<Rightarrow> \<not> signThenDigit s \<and> identifierStart c \<and> list_all identifierContinue cs)"

definition reservedIdentifiers :: "jsstring set" where
  "reservedIdentifiers =
     {js ''inf'', js ''-inf'', js ''nan'', js ''true'', js ''false'', js ''null''}"

definition printIdentifier :: "jsstring \<Rightarrow> jsstring" where
  "printIdentifier name =
     (if length name > 0 \<and> name \<notin> reservedIdentifiers \<and> plainIdentifierRe name then name
      else let n = numberOfHashes name
           in if n = 0 then [quoteChar] @ name @ [quoteChar]
              else repeat hashChar n @ [quoteChar] @ name @ [quoteChar] @ repeat hashChar n)"

section \<open>Layout documents\<close>

text \<open>
  The printer does not produce text: it builds a document of the layout library out of
  strings, arrays and the builders \<^verbatim>\<open>group\<close>, \<^verbatim>\<open>indent\<close>, \<^verbatim>\<open>align\<close>, \<^verbatim>\<open>line\<close>,
  \<^verbatim>\<open>hardline\<close>, \<^verbatim>\<open>hardlineWithoutBreakParent\<close>, \<^verbatim>\<open>ifBreak\<close> and \<^verbatim>\<open>breakParent\<close>.
\<close>

datatype doc =
    Text jsstring
  | Concat "doc list"
  | Group doc
  | Indent doc
  | Align nat doc
  | Line
  | Hardline
  | HardlineWithoutBreakParent
  | IfBreak doc doc
  | BreakParent

fun separate :: "'a \<Rightarrow> 'a list \<Rightarrow> 'a list" where
  "separate sep [] = []"
| "separate sep [x] = [x]"
| "separate sep (x # y # ys) = x # sep # separate sep (y # ys)"

definition join :: "doc \<Rightarrow> doc list \<Rightarrow> doc" where
  "join sep ds = Concat (separate sep ds)"

text \<open>\<^verbatim>\<open>builders.ifBreak(" \\")\<close>: a space and a backslash when the enclosing group is
  broken, the empty string otherwise.\<close>

definition continuation :: doc where
  "continuation = IfBreak (Text [spaceChar, backslashChar]) (Text [])"

section \<open>Tree and trivia tokens\<close>

record tag =
  t_name :: jsstring
  t_leading :: "jsstring option"
  t_trailing :: "jsstring option"

record entry =
  e_name :: "jsstring option"
  e_equals :: "jsstring option"
  e_tag :: "tag option"
  e_betweenTagAndValue :: "jsstring option"
  e_value :: jsvalue
  e_leading :: "jsstring option"

datatype node =
  Node (n_name: jsstring) (n_tag: "tag option") (n_betweenTagAndName: "jsstring option")
       (n_entries: "entry list") (n_children: "document option")
       (n_leading: "jsstring option") (n_beforeChildren: "jsstring option")
       (n_trailing: "jsstring option")
and document =
  Document (d_nodes: "node list") (d_trailing: "jsstring option")

text \<open>The tokens of \<^verbatim>\<open>parse(text, {as: "whitespace in document"})\<close> and of
  \<^verbatim>\<open>parse(text, {as: "whitespace in node"})\<close>, with the fields the printer reads. A token
  of a type that the printer's \<^verbatim>\<open>switch\<close> does not name is \<open>DOther\<close> or \<open>NOther\<close>.\<close>

datatype docToken =
    DNewline
  | DSpace
  | DSingleline jsstring
  | DMultiline jsstring
  | DSlashdash node
  | DOther

datatype nodeToken =
    NSpace
  | NLineEscape jsstring
  | NSlashdash "entry + document"
  | NMultiline jsstring
  | NOther

text \<open>What the printer calls and this repository does not hold: the two tokenizers of
  the parser, the width measure of the layout library, and the conversion of a number that is not an
  integer of magnitude below \<open>2\<^sup>5\<^sup>3\<close>, left open above.\<close>

record env =
  docSpace :: "jsstring \<Rightarrow> docToken list"
  nodeSpace :: "jsstring \<Rightarrow> nodeToken list"
  getStringWidth :: "jsstring \<Rightarrow> nat"
  doubleToString :: "rat \<Rightarrow> jsstring"

text \<open>A string that may be absent is truthy when it is there and not empty;
  \<^verbatim>\<open>x ?? ""\<close> reads an absent one as the empty string.\<close>

definition truthy :: "jsstring option \<Rightarrow> bool" where
  "truthy x = (case x of None \<Rightarrow> False | Some s \<Rightarrow> s \<noteq> [])"

definition orEmpty :: "jsstring option \<Rightarrow> jsstring" where
  "orEmpty x = (case x of None \<Rightarrow> [] | Some s \<Rightarrow> s)"

text \<open>\<^verbatim>\<open>Node.hasChildren()\<close> and \<^verbatim>\<open>Node.getArgumentEntries()\<close> of the parser package.\<close>

definition hasChildren :: "node \<Rightarrow> bool" where
  "hasChildren node = (case n_children node of None \<Rightarrow> False | Some d \<Rightarrow> d_nodes d \<noteq> [])"

definition getArgumentEntries :: "node \<Rightarrow> entry list" where
  "getArgumentEntries node = filter (\<lambda>e. e_name e = None) (n_entries node)"

section \<open>Entry composer\<close>

definition printTag :: "tag \<Rightarrow> jsstring" where
  "printTag t =
     js ''('' @ trim (orEmpty (t_leading t)) @ printIdentifier (t_name t)
       @ trim (orEmpty (t_trailing t)) @ js '')''"

definition printEntry :: "env \<Rightarrow> entry \<Rightarrow> jsstring" where
  "printEntry E entry =
     (case e_name entry of
        None \<Rightarrow> []
      | Some name \<Rightarrow> printIdentifier name @ (case e_equals entry of None \<Rightarrow> js ''='' | Some eq \<Rightarrow> eq))
     @ (case e_tag entry of
          None \<Rightarrow> []
        | Some t \<Rightarrow> printTag t @ trim (orEmpty (e_betweenTagAndValue entry)))
     @ printValue (doubleToString E) (e_value entry)"

section \<open>Trivia reconciler\<close>

text \<open>The block comment of \<^verbatim>\<open>printLineSpace\<close>: the lines as they are when there is one
  line or some later line does not start with a star after its leading space; else the
  first line without its leading space and every later line as one space and the line
  without its leading space. The lines are joined by \<^verbatim>\<open>hardline\<close>.\<close>

definition starred :: "jsstring list \<Rightarrow> bool" where
  "starred lines = list_all (\<lambda>line. startsWith (trimStart line) [starChar]) (tl lines)"

definition multilineComment :: "jsstring \<Rightarrow> doc" where
  "multilineComment text =
     (let lines = splitLines text
      in if length lines = 1 \<or> \<not> starred lines
         then join Hardline (map Text lines)
         else join Hardline
                (map Text (trimStart (hd lines) # map (\<lambda>line. spaceChar # trimStart line) (tl lines))))"

text \<open>The block comment of \<^verbatim>\<open>addCommentToHeader\<close>: the same test, the lines trimmed at
  both ends, joined by \<^verbatim>\<open>hardlineWithoutBreakParent\<close>.\<close>

definition headerComment :: "jsstring \<Rightarrow> doc" where
  "headerComment text =
     (let lines = splitLines text
      in if length lines = 1 \<or> \<not> starred lines
         then join HardlineWithoutBreakParent (map Text lines)
         else join HardlineWithoutBreakParent
                (map Text (trim (hd lines) # map (\<lambda>line. spaceChar # trim line) (tl lines))))"

text \<open>The state of the loop of \<^verbatim>\<open>printLineSpace\<close>: the parts pushed so far and the three
  flags.\<close>

record lineSpaceState =
  parts :: "doc list"
  hasAddedEmptyLine :: bool
  hasAddedNonEmptyContent :: bool
  lastWasNewline :: bool

definition pushContent :: "doc \<Rightarrow> bool \<Rightarrow> lineSpaceState \<Rightarrow> lineSpaceState" where
  "pushContent d newline s =
     s\<lparr>parts := parts s @ [d], hasAddedEmptyLine := False,
       hasAddedNonEmptyContent := True, lastWasNewline := newline\<rparr>"

text \<open>One turn of the loop. \<open>printNode\<close> is the printer of a node, called on the node of
  a slashdash token; it is handed in because \<^verbatim>\<open>printNode\<close> is defined after this loop.\<close>

fun lineSpaceStep ::
  "(node \<Rightarrow> doc option) \<Rightarrow> docToken \<Rightarrow> lineSpaceState \<Rightarrow> lineSpaceState option" where
  "lineSpaceStep printNode DNewline s =
     Some ((if lastWasNewline s \<and> hasAddedNonEmptyContent s \<and> \<not> hasAddedEmptyLine s
            then s\<lparr>parts := parts s @ [Text []], hasAddedEmptyLine := True\<rparr>
            else s)\<lparr>lastWasNewline := True\<rparr>)"
| "lineSpaceStep printNode DSpace s = Some s"
| "lineSpaceStep printNode (DSingleline text) s =
     Some (pushContent (Text (trim (sliceDropLast text))) True s)"
| "lineSpaceStep printNode (DMultiline text) s =
     Some (pushContent (multilineComment text) False s)"
| "lineSpaceStep printNode (DSlashdash v) s =
     (case printNode v of
        None \<Rightarrow> None
      | Some d \<Rightarrow> Some (pushContent (Concat [Text (js ''/-''), d]) False s))"
| "lineSpaceStep printNode DOther s = Some s"

fun lineSpaceLoop ::
  "(node \<Rightarrow> doc option) \<Rightarrow> docToken list \<Rightarrow> lineSpaceState \<Rightarrow> lineSpaceState option" where
  "lineSpaceLoop printNode [] s = Some s"
| "lineSpaceLoop printNode (t # ts) s =
     (case lineSpaceStep printNode t s of
        None \<Rightarrow> None
      | Some s' \<Rightarrow> lineSpaceLoop printNode ts s')"

definition lineSpaceInit :: "bool \<Rightarrow> lineSpaceState" where
  "lineSpaceInit previousWasNewline =
     \<lparr>parts = [], hasAddedEmptyLine = False,
      hasAddedNonEmptyContent = previousWasNewline, lastWasNewline = previousWasNewline\<rparr>"

definition printLineSpace ::
  "env \<Rightarrow> (node \<Rightarrow> doc option) \<Rightarrow> jsstring \<Rightarrow> bool \<Rightarrow> doc list option" where
  "printLineSpace E printNode text previousWasNewline =
     map_option parts
       (lineSpaceLoop printNode (docSpace E text) (lineSpaceInit previousWasNewline))"

section \<open>Node and document assembler\<close>

text \<open>
  \<^verbatim>\<open>printNode\<close> keeps the header in the array \<^verbatim>\<open>header\<close> and, in \<^verbatim>\<open>lastHeaderItem\<close>, a second
  reference to one of its items or to an array that is in no list. The state below holds
  the header and the index of the item that \<^verbatim>\<open>lastHeaderItem\<close> refers to, if any; a push
  on an array that is in no list is never seen again.
\<close>

record headerState =
  header :: "doc list list"
  lastHeaderItem :: "nat option"

definition pushContinuation :: "headerState \<Rightarrow> headerState" where
  "pushContinuation hs =
     (case lastHeaderItem hs of
        None \<Rightarrow> hs
      | Some i \<Rightarrow> hs\<lparr>header := (header hs)[i := header hs ! i @ [continuation]]\<rparr>)"

definition pushItem :: "doc list \<Rightarrow> headerState \<Rightarrow> headerState" where
  "pushItem item hs = \<lparr>header = header hs @ [item], lastHeaderItem = Some (length (header hs))\<rparr>"

definition pushLoose :: "doc list \<Rightarrow> headerState \<Rightarrow> headerState" where
  "pushLoose item hs = hs\<lparr>header := header hs @ [item]\<rparr>"

definition detach :: "headerState \<Rightarrow> headerState" where
  "detach hs = hs\<lparr>lastHeaderItem := None\<rparr>"

definition singlelineItem :: "jsstring \<Rightarrow> doc list" where
  "singlelineItem text =
     [BreakParent, Text ([backslashChar, spaceChar] @ trim (sliceDropLast text))]"

definition pushSingleline :: "jsstring \<Rightarrow> headerState \<Rightarrow> headerState" where
  "pushSingleline text hs = pushLoose (singlelineItem text) (detach (pushContinuation hs))"

text \<open>The inner loop of the \<^verbatim>\<open>line-escape\<close> case, over the tokens of the text after the
  backslash. Its \<^verbatim>\<open>multiline\<close> case splits the text of the whole escape and has no
  \<^verbatim>\<open>break\<close>, so it runs on into the \<^verbatim>\<open>singleline\<close> case.\<close>

fun escapeStep :: "jsstring \<Rightarrow> docToken \<Rightarrow> headerState \<Rightarrow> headerState" where
  "escapeStep whole (DMultiline text) hs =
     pushSingleline text (pushItem [headerComment whole] (pushContinuation hs))"
| "escapeStep whole (DSingleline text) hs = pushSingleline text hs"
| "escapeStep whole DNewline hs = hs"
| "escapeStep whole DSpace hs = hs"
| "escapeStep whole (DSlashdash v) hs = hs"
| "escapeStep whole DOther hs = hs"

fun headerStep ::
  "env \<Rightarrow> (document \<Rightarrow> doc option) \<Rightarrow> nodeToken \<Rightarrow> headerState \<Rightarrow> headerState option" where
  "headerStep E printDocument NSpace hs = Some hs"
| "headerStep E printDocument (NLineEscape text) hs =
     Some (fold (escapeStep text) (docSpace E (sliceFrom1 text)) hs)"
| "headerStep E printDocument (NSlashdash (Inl e)) hs =
     Some (pushItem [Text (js ''/-''), Text (printEntry E e)] (pushContinuation hs))"
| "headerStep E printDocument (NSlashdash (Inr d)) hs =
     (case printDocument d of
        None \<Rightarrow> None
      | Some children \<Rightarrow>
          Some (pushItem [Text (js ''/-''), Concat [Text (js ''{''), children, Text (js ''}'')]]
                  (pushContinuation hs)))"
| "headerStep E printDocument (NMultiline text) hs =
     Some (pushItem [headerComment text] (pushContinuation hs))"
| "headerStep E printDocument NOther hs = Some hs"

fun headerLoop ::
  "env \<Rightarrow> (document \<Rightarrow> doc option) \<Rightarrow> nodeToken list \<Rightarrow> headerState \<Rightarrow> headerState option" where
  "headerLoop E printDocument [] hs = Some hs"
| "headerLoop E printDocument (t # ts) hs =
     (case headerStep E printDocument t hs of
        None \<Rightarrow> None
      | Some hs' \<Rightarrow> headerLoop E printDocument ts hs')"

definition addCommentToHeader ::
  "env \<Rightarrow> (document \<Rightarrow> doc option) \<Rightarrow> jsstring \<Rightarrow> headerState \<Rightarrow> headerState option" where
  "addCommentToHeader E printDocument text hs = headerLoop E printDocument (nodeSpace E text) hs"

definition addOptionalComment ::
  "env \<Rightarrow> (document \<Rightarrow> doc option) \<Rightarrow> jsstring option \<Rightarrow> headerState \<Rightarrow> headerState option" where
  "addOptionalComment E printDocument text hs =
     (if truthy text then addCommentToHeader E printDocument (orEmpty text) hs else Some hs)"

text \<open>The loop over the entries that stay in the header.\<close>

fun entriesLoop ::
  "env \<Rightarrow> (document \<Rightarrow> doc option) \<Rightarrow> entry list \<Rightarrow> headerState \<Rightarrow> headerState option" where
  "entriesLoop E printDocument [] hs = Some hs"
| "entriesLoop E printDocument (e # es) hs =
     (case addOptionalComment E printDocument (e_leading e) hs of
        None \<Rightarrow> None
      | Some hs' \<Rightarrow>
          entriesLoop E printDocument es (pushItem [Text (printEntry E e)] (pushContinuation hs')))"

text \<open>The name with its tag, the test for the single argument that is put after the
  name, and what the test leaves: the string at the head of the group and the entries of
  the header.\<close>

definition nodeName :: "node \<Rightarrow> jsstring" where
  "nodeName node =
     (case n_tag node of
        None \<Rightarrow> printIdentifier (n_name node)
      | Some t \<Rightarrow> printTag t @ trim (orEmpty (n_betweenTagAndName node))
                  @ printIdentifier (n_name node))"

definition nameAlign :: "env \<Rightarrow> node \<Rightarrow> nat" where
  "nameAlign E node = getStringWidth E (nodeName node) + 1"

definition fusesArgument :: "node \<Rightarrow> bool" where
  "fusesArgument node =
     (case getArgumentEntries node of
        [arg] \<Rightarrow> (case n_entries node of [] \<Rightarrow> False | e # _ \<Rightarrow> e_name e = None)
                 \<and> (\<not> truthy (e_leading arg) \<or> trim (orEmpty (e_leading arg)) = [])
      | _ \<Rightarrow> False)"

definition headName :: "env \<Rightarrow> node \<Rightarrow> jsstring" where
  "headName E node =
     (if fusesArgument node
      then nodeName node @ [spaceChar] @ printEntry E (hd (getArgumentEntries node))
      else nodeName node)"

definition headerEntries :: "node \<Rightarrow> entry list" where
  "headerEntries node = (if fusesArgument node then tl (n_entries node) else n_entries node)"

definition headerGroup :: "jsstring \<Rightarrow> nat \<Rightarrow> doc list list \<Rightarrow> doc" where
  "headerGroup name align items =
     (let joinedHeader = join Line (map Concat items)
      in Group (Concat [Text name, continuation,
                        IfBreak (Align align (Concat [Line, joinedHeader]))
                                (Concat [Line, joinedHeader])]))"

definition emptyHeader :: headerState where
  "emptyHeader = \<lparr>header = [], lastHeaderItem = None\<rparr>"

definition buildHeader ::
  "env \<Rightarrow> (document \<Rightarrow> doc option) \<Rightarrow> node \<Rightarrow> headerState option" where
  "buildHeader E printDocument node =
     (case entriesLoop E printDocument (headerEntries node) emptyHeader of
        None \<Rightarrow> None
      | Some hs \<Rightarrow> addOptionalComment E printDocument (n_beforeChildren node) hs)"

definition childrenTrailing :: "node \<Rightarrow> jsstring option" where
  "childrenTrailing node = (case n_children node of None \<Rightarrow> None | Some d \<Rightarrow> d_trailing d)"

definition trailingText :: "jsstring \<Rightarrow> jsstring" where
  "trailingText trailing =
     (if endsWith trailing [semicolonChar] then sliceDropLast trailing else trailing)"

definition optionalLineSpace ::
  "env \<Rightarrow> (node \<Rightarrow> doc option) \<Rightarrow> jsstring option \<Rightarrow> (jsstring \<Rightarrow> jsstring) \<Rightarrow> bool
     \<Rightarrow> doc list option" where
  "optionalLineSpace E printNode text prepare previousWasNewline =
     (if truthy text then printLineSpace E printNode (prepare (orEmpty text)) previousWasNewline
      else Some [])"

text \<open>\<^verbatim>\<open>document.nodes.map((node, i) => printNode(node, i === 0))\<close>.\<close>

fun printNodes :: "(node \<Rightarrow> bool \<Rightarrow> doc option) \<Rightarrow> bool \<Rightarrow> node list \<Rightarrow> doc list option" where
  "printNodes printNode isFirst [] = Some []"
| "printNodes printNode isFirst (n # ns) =
     (case printNode n isFirst of
        None \<Rightarrow> None
      | Some d \<Rightarrow> map_option ((#) d) (printNodes printNode False ns))"

definition printDocumentWith ::
  "env \<Rightarrow> (node \<Rightarrow> bool \<Rightarrow> doc option) \<Rightarrow> document \<Rightarrow> doc option" where
  "printDocumentWith E printNode document =
     (case printNodes printNode True (d_nodes document) of
        None \<Rightarrow> None
      | Some nodes \<Rightarrow>
          (case optionalLineSpace E (\<lambda>n. printNode n False) (d_trailing document) id False of
             None \<Rightarrow> None
           | Some trailing \<Rightarrow> Some (join Hardline (join Hardline nodes # trailing))))"

text \<open>The part that \<^verbatim>\<open>printNode\<close> pushes for the node itself: the header group alone
  when there are no child nodes and no trivia inside the block, with \<^verbatim>\<open>{}\<close> as the last
  header item if there is a block; otherwise the header group with \<^verbatim>\<open>{\<close> as its last
  item, the indented children and the closing brace. \<open>recur\<close> stands for \<^verbatim>\<open>printNode\<close> in
  the calls made on the nodes below.\<close>

definition nodePart ::
  "env \<Rightarrow> (node \<Rightarrow> bool \<Rightarrow> doc option) \<Rightarrow> node \<Rightarrow> headerState \<Rightarrow> doc option" where
  "nodePart E recur node hs =
     (if \<not> hasChildren node \<and> \<not> truthy (childrenTrailing node)
      then Some (headerGroup (headName E node) (nameAlign E node)
                   (header (if n_children node \<noteq> None
                            then pushLoose [Text (js ''{}'')] (pushContinuation hs)
                            else hs)))
      else (case n_children node of
              None \<Rightarrow> None
            | Some children \<Rightarrow>
                (case printDocumentWith E recur children of
                   None \<Rightarrow> None
                 | Some printed \<Rightarrow>
                     Some (Concat
                       [headerGroup (headName E node) (nameAlign E node)
                          (header (pushLoose [Text (js ''{'')] (pushContinuation hs))),
                        Indent (Concat [Hardline, printed]),
                        Hardline,
                        Text (js ''}'')]))))"

text \<open>The body of \<^verbatim>\<open>printNode\<close>: the header, the leading trivia, the node itself, the
  trailing trivia without its final semicolon, all joined by \<^verbatim>\<open>hardline\<close>.\<close>

definition printNodeBody ::
  "env \<Rightarrow> (node \<Rightarrow> bool \<Rightarrow> doc option) \<Rightarrow> node \<Rightarrow> bool \<Rightarrow> doc option" where
  "printNodeBody E recur node isFirstNode =
     (case buildHeader E (printDocumentWith E recur) node of
        None \<Rightarrow> None
      | Some hs \<Rightarrow>
     (case optionalLineSpace E (\<lambda>n. recur n False) (n_leading node) id (\<not> isFirstNode) of
        None \<Rightarrow> None
      | Some leadingParts \<Rightarrow>
     (case nodePart E recur node hs of
        None \<Rightarrow> None
      | Some part \<Rightarrow>
     (case optionalLineSpace E (\<lambda>n. recur n False) (n_trailing node) trailingText False of
        None \<Rightarrow> None
      | Some trailingParts \<Rightarrow>
          Some (join Hardline (leadingParts @ [part] @ trailingParts))))))"

text \<open>The recursion of \<^verbatim>\<open>printNode\<close> goes through the nodes that the tokenizers return,
  which nothing in the printer bounds; \<open>fuel\<close> bounds the depth of the calls, and \<open>None\<close>
  is a run that does not return within it.\<close>

fun printNode :: "nat \<Rightarrow> env \<Rightarrow> node \<Rightarrow> bool \<Rightarrow> doc option" where
  "printNode 0 E node isFirstNode = None"
| "printNode (Suc fuel) E node isFirstNode = printNodeBody E (printNode fuel E) node isFirstNode"

definition printDocument :: "nat \<Rightarrow> env \<Rightarrow> document \<Rightarrow> doc option" where
  "printDocument fuel E document = printDocumentWith E (printNode fuel E) document"

text \<open>\<^verbatim>\<open>printer.print\<close>.\<close>

definition print :: "nat \<Rightarrow> env \<Rightarrow> document \<Rightarrow> doc option" where
  "print fuel E document =
     map_option (\<lambda>d. Concat [d, Hardline]) (printDocument fuel E document)"

section \<open>Layout algebra\<close>

text \<open>
  Modelled from the spec: the layout library that turns a document into text is not in
  the repository. Section 6 of the spec gives its primitives: a group renders flat if it
  fits the remaining width budget and contains no forced break, else broken; \<^verbatim>\<open>indent\<close>
  shifts the contained line breaks right by one level and \<^verbatim>\<open>align\<close> by exactly \<open>n\<close>
  columns; \<^verbatim>\<open>line\<close> is a space when flat and a newline when broken; \<^verbatim>\<open>hardline\<close> is always
  a newline and forces every enclosing group to break; \<^verbatim>\<open>hardlineWithoutBreakParent\<close> is
  always a newline and forces nothing; \<^verbatim>\<open>ifBreak\<close> chooses by the mode of the enclosing
  group; \<^verbatim>\<open>breakParent\<close> forces the nearest enclosing group to break. The width budget
  defaults to 80 columns. The library's removal of blanks at the end of a line is not in
  the spec and not modelled.
\<close>

record layout =
  textWidth :: "jsstring \<Rightarrow> nat"
  printWidth :: nat
  indentWidth :: nat

fun containsHardline :: "doc \<Rightarrow> bool" where
  "containsHardline (Text s) = False"
| "containsHardline (Concat ds) = (\<exists>d \<in> set ds. containsHardline d)"
| "containsHardline (Group d) = containsHardline d"
| "containsHardline (Indent d) = containsHardline d"
| "containsHardline (Align n d) = containsHardline d"
| "containsHardline Line = False"
| "containsHardline Hardline = True"
| "containsHardline HardlineWithoutBreakParent = False"
| "containsHardline (IfBreak b f) = (containsHardline b \<or> containsHardline f)"
| "containsHardline BreakParent = False"

fun breakParentHere :: "doc \<Rightarrow> bool" where
  "breakParentHere (Text s) = False"
| "breakParentHere (Concat ds) = (\<exists>d \<in> set ds. breakParentHere d)"
| "breakParentHere (Group d) = False"
| "breakParentHere (Indent d) = breakParentHere d"
| "breakParentHere (Align n d) = breakParentHere d"
| "breakParentHere Line = False"
| "breakParentHere Hardline = False"
| "breakParentHere HardlineWithoutBreakParent = False"
| "breakParentHere (IfBreak b f) = (breakParentHere b \<or> breakParentHere f)"
| "breakParentHere BreakParent = True"

text \<open>Whether the contents of a group hold a forced break.\<close>

definition forcedBreak :: "doc \<Rightarrow> bool" where
  "forcedBreak contents = (containsHardline contents \<or> breakParentHere contents)"

text \<open>The width of the flat rendering up to its first newline, and whether it has one.\<close>

fun firstLine :: "(jsstring \<Rightarrow> nat) \<Rightarrow> doc \<Rightarrow> nat \<times> bool"
and firstLines :: "(jsstring \<Rightarrow> nat) \<Rightarrow> doc list \<Rightarrow> nat \<times> bool" where
  "firstLine w (Text s) = (w s, False)"
| "firstLine w (Concat ds) = firstLines w ds"
| "firstLine w (Group d) = firstLine w d"
| "firstLine w (Indent d) = firstLine w d"
| "firstLine w (Align n d) = firstLine w d"
| "firstLine w Line = (1, False)"
| "firstLine w Hardline = (0, True)"
| "firstLine w HardlineWithoutBreakParent = (0, True)"
| "firstLine w (IfBreak b f) = firstLine w f"
| "firstLine w BreakParent = (0, False)"
| "firstLines w [] = (0, False)"
| "firstLines w (d # ds) =
     (case firstLine w d of
        (n, True) \<Rightarrow> (n, True)
      | (n, False) \<Rightarrow> (case firstLines w ds of (m, ended) \<Rightarrow> (n + m, ended)))"

definition fits :: "layout \<Rightarrow> nat \<Rightarrow> doc \<Rightarrow> bool" where
  "fits L column contents = (column + fst (firstLine (textWidth L) contents) \<le> printWidth L)"

definition brokenGroup :: "layout \<Rightarrow> nat \<Rightarrow> doc \<Rightarrow> bool" where
  "brokenGroup L column contents = (forcedBreak contents \<or> \<not> fits L column contents)"

text \<open>The text so far is a pair of the column and the characters. \<open>broken\<close> is the mode
  of the enclosing group and \<open>i\<close> the indentation of the line breaks.\<close>

definition newline :: "nat \<Rightarrow> nat \<times> jsstring \<Rightarrow> nat \<times> jsstring" where
  "newline i st = (i, snd st @ [0x0A] @ replicate i spaceChar)"

definition emit :: "layout \<Rightarrow> jsstring \<Rightarrow> nat \<times> jsstring \<Rightarrow> nat \<times> jsstring" where
  "emit L s st = (fst st + textWidth L s, snd st @ s)"

fun render :: "layout \<Rightarrow> nat \<Rightarrow> bool \<Rightarrow> doc \<Rightarrow> nat \<times> jsstring \<Rightarrow> nat \<times> jsstring" where
  "render L i broken (Text s) st = emit L s st"
| "render L i broken (Concat ds) st = fold (render L i broken) ds st"
| "render L i broken (Group d) st = render L i (brokenGroup L (fst st) d) d st"
| "render L i broken (Indent d) st = render L (i + indentWidth L) broken d st"
| "render L i broken (Align n d) st = render L (i + n) broken d st"
| "render L i broken Line st = (if broken then newline i st else emit L [spaceChar] st)"
| "render L i broken Hardline st = newline i st"
| "render L i broken HardlineWithoutBreakParent st = newline i st"
| "render L i broken (IfBreak b f) st = render L i broken (if broken then b else f) st"
| "render L i broken BreakParent st = st"

definition renderText :: "layout \<Rightarrow> doc \<Rightarrow> jsstring" where
  "renderText L d = snd (render L 0 True d (0, []))"

section \<open>The earlier revision of the literal canonicalizer\<close>

text \<open>
  The source file also holds an earlier revision of the printer, for the dialect with bare
  keywords and raw strings that start with \<^verbatim>\<open>r\<close>. Its \<^verbatim>\<open>printIdentifier\<close> prints the
  empty name bare and has no list of reserved names; the string case of its \<^verbatim>\<open>printValue\<close>
  counts the hashes with the same loop, puts an \<^verbatim>\<open>r\<close> in front of a raw string and
  escapes nothing.
\<close>

definition printIdentifier_legacy :: "jsstring \<Rightarrow> jsstring" where
  "printIdentifier_legacy name =
     (if length name = 0 \<or> plainIdentifierRe name then name
      else let n = numberOfHashes name
           in if n = 0 then [quoteChar] @ name @ [quoteChar]
              else js ''r'' @ repeat hashChar n @ [quoteChar] @ name @ [quoteChar]
                     @ repeat hashChar n)"

definition printString_legacy :: "jsstring \<Rightarrow> doc" where
  "printString_legacy rawValue =
     (let n = numberOfHashes rawValue
      in if n = 0 then Group (Concat [Text [quoteChar], Text rawValue, Text [quoteChar]])
         else Group (Concat [Text (js ''r'' @ repeat hashChar n @ [quoteChar]),
                             Text rawValue,
                             Text ([quoteChar] @ repeat hashChar n)]))"

section \<open>Notions used in the statements\<close>

text \<open>The number that a row of decimal digits denotes.\<close>

definition digitsValue :: "jsstring \<Rightarrow> nat" where
  "digitsValue s = foldl (\<lambda>a c. 10 * a + (unat c - 48)) 0 s"

text \<open>The header items as they stand when the group is built, the group, and the
  contents of the group.\<close>

definition finalItems :: "node \<Rightarrow> headerState \<Rightarrow> doc list list" where
  "finalItems node hs =
     header (if \<not> hasChildren node \<and> \<not> truthy (childrenTrailing node)
             then (if n_children node \<noteq> None
                   then pushLoose [Text (js ''{}'')] (pushContinuation hs) else hs)
             else pushLoose [Text (js ''{'')] (pushContinuation hs))"

definition headerContents :: "jsstring \<Rightarrow> nat \<Rightarrow> doc list list \<Rightarrow> doc" where
  "headerContents name align items =
     Concat [Text name, continuation,
             IfBreak (Align align (Concat [Line, join Line (map Concat items)]))
                     (Concat [Line, join Line (map Concat items)])]"

definition nodeGroup :: "env \<Rightarrow> node \<Rightarrow> headerState \<Rightarrow> doc" where
  "nodeGroup E node hs = headerGroup (headName E node) (nameAlign E node) (finalItems node hs)"






text \<open>The trivia texts that \<^verbatim>\<open>printNode\<close> hands to \<^verbatim>\<open>addCommentToHeader\<close>; a text with a
  line escape that holds a single-line comment; and the tokens for which the printer pushes
  an item without any break marker.\<close>

definition headerTexts :: "node \<Rightarrow> jsstring list" where
  "headerTexts node =
     map (\<lambda>e. orEmpty (e_leading e)) (filter (\<lambda>e. truthy (e_leading e)) (headerEntries node))
     @ (if truthy (n_beforeChildren node) then [orEmpty (n_beforeChildren node)] else [])"

definition isSingleline :: "docToken \<Rightarrow> bool" where
  "isSingleline tok = (case tok of DSingleline _ \<Rightarrow> True | _ \<Rightarrow> False)"

definition escapedSingleline :: "env \<Rightarrow> nodeToken \<Rightarrow> bool" where
  "escapedSingleline E tok =
     (case tok of
        NLineEscape w \<Rightarrow> (\<exists>d \<in> set (docSpace E (sliceFrom1 w)). isSingleline d)
      | _ \<Rightarrow> False)"

definition escapesComment :: "env \<Rightarrow> jsstring \<Rightarrow> bool" where
  "escapesComment E text = (\<exists>tok \<in> set (nodeSpace E text). escapedSingleline E tok)"

definition softToken :: "nodeToken \<Rightarrow> bool" where
  "softToken tok =
     (case tok of
        NSpace \<Rightarrow> True
      | NMultiline _ \<Rightarrow> True
      | NSlashdash (Inl _) \<Rightarrow> True
      | NOther \<Rightarrow> True
      | _ \<Rightarrow> False)"

definition breakItem :: "doc list list \<Rightarrow> bool" where
  "breakItem items = (\<exists>item \<in> set items. BreakParent \<in> set item)"

definition softItems :: "doc list list \<Rightarrow> bool" where
  "softItems items =
     (\<forall>item \<in> set items. \<forall>d \<in> set item. \<not> containsHardline d \<and> \<not> breakParentHere d)"

text \<open>A printer of nodes extends another when it returns what the other returns.\<close>

definition extends ::
  "(node \<Rightarrow> bool \<Rightarrow> doc option) \<Rightarrow> (node \<Rightarrow> bool \<Rightarrow> doc option) \<Rightarrow> bool" where
  "extends r r' = (\<forall>n b d. r n b = Some d \<longrightarrow> r' n b = Some d)"

text \<open>
  The recursion of \<^verbatim>\<open>printNode\<close> ends when the nodes that a tokenizer returns for a
  trivia text are read from parts of that text. The weight of a node counts the node, its
  block, the nodes below and every character of the trivia texts that the printer hands to a
  tokenizer; a tree that is read from a text weighs less than the text has characters
  when every node takes a character for its name at least, every block its two braces,
  and the trivia texts are parts of the text that do not overlap. The tokenizers are
  bounded when the node of every slashdash token of a text, and the block of every
  slashdash token in a header, weighs less than the text is long.
\<close>

primrec weight :: "node \<Rightarrow> nat" and documentWeight :: "document \<Rightarrow> nat" where
  "weight (Node nm tg bt es ch ld bc tr) =
     1 + length (orEmpty ld) + length (orEmpty bc) + length (orEmpty tr)
       + sum_list (map (\<lambda>e. length (orEmpty (e_leading e))) es)
       + (case map_option documentWeight ch of None \<Rightarrow> 0 | Some w \<Rightarrow> w)"
| "documentWeight (Document ns tr) = 1 + length (orEmpty tr) + sum_list (map weight ns)"

definition boundedTokenizers :: "env \<Rightarrow> bool" where
  "boundedTokenizers E =
     ((\<forall>text n. DSlashdash n \<in> set (docSpace E text) \<longrightarrow> weight n < length text)
      \<and> (\<forall>text d. NSlashdash (Inr d) \<in> set (nodeSpace E text)
            \<longrightarrow> documentWeight d < length text))"

section \<open>Sample inputs\<close>

text \<open>A tokenizer that knows the trivia texts used in the examples below and gives what
  the parser gives for them, the width of a string as its length, and the default width
  budget of 80 columns with two columns to an indentation level.\<close>

definition sampleArgument :: "jsvalue \<Rightarrow> entry" where
  "sampleArgument v =
     \<lparr>e_name = None, e_equals = None, e_tag = None, e_betweenTagAndValue = None,
      e_value = v, e_leading = Some (js '' '')\<rparr>"

definition sampleProperty :: "jsstring \<Rightarrow> jsvalue \<Rightarrow> jsstring \<Rightarrow> entry" where
  "sampleProperty name v leading =
     \<lparr>e_name = Some name, e_equals = Some (js ''=''), e_tag = None, e_betweenTagAndValue = None,
      e_value = v, e_leading = Some leading\<rparr>"

definition escapedComment :: jsstring where
  "escapedComment = backslashChar # js '' // c'' @ [0x0A]"

definition sampleDocSpace :: "jsstring \<Rightarrow> docToken list" where
  "sampleDocSpace t =
     (if t = js '' '' then [DSpace]
      else if t = [0x0A] then [DNewline]
      else if t = js '' // c'' @ [0x0A] then [DSpace, DSingleline (js ''// c'' @ [0x0A])]
      else if t = js ''/-a;'' @ [0x0A]
           then [DSlashdash (Node (js ''a'') None None [] None None None (Some (js '';''))),
                 DNewline]
      else [])"

definition sampleNodeSpace :: "jsstring \<Rightarrow> nodeToken list" where
  "sampleNodeSpace t =
     (if t = js '' '' then [NSpace]
      else if t = js '' '' @ escapedComment @ js '' '' then [NSpace, NLineEscape escapedComment, NSpace]
      else if t = js '' /-1 ''
           then [NSpace, NSlashdash (Inl (sampleArgument (VNumber (Finite 1)))), NSpace]
      else if t = js '' /* c */ '' then [NSpace, NMultiline (js ''/* c */''), NSpace]
      else [])"

definition sampleEnv :: env where
  "sampleEnv =
     \<lparr>docSpace = sampleDocSpace, nodeSpace = sampleNodeSpace, getStringWidth = length,
      doubleToString = (\<lambda>q. [])\<rparr>"

definition sampleLayout :: layout where
  "sampleLayout = \<lparr>textWidth = length, printWidth = 80, indentWidth = 2\<rparr>"

definition narrowLayout :: layout where
  "narrowLayout = \<lparr>textWidth = length, printWidth = 8, indentWidth = 2\<rparr>"

text \<open>The nodes \<^verbatim>\<open>node a=1 b=2\<close>, the same with a single-line comment in an escaped line
  break before \<^verbatim>\<open>b=2\<close>, and the nodes \<^verbatim>\<open>node /-1 {}\<close> and \<^verbatim>\<open>node /* c */ {}\<close>, with a
  slashdash entry or a block comment before an empty block.\<close>

definition twoProperties :: node where
  "twoProperties =
     Node (js ''node'') None None
       [sampleProperty (js ''a'') (VNumber (Finite 1)) (js '' ''),
        sampleProperty (js ''b'') (VNumber (Finite 2)) (js '' '')]
       None None None None"

definition commentedProperties :: node where
  "commentedProperties =
     Node (js ''node'') None None
       [sampleProperty (js ''a'') (VNumber (Finite 1)) (js '' ''),
        sampleProperty (js ''b'') (VNumber (Finite 2)) (js '' '' @ escapedComment @ js '' '')]
       None None None None"

definition slashdashArgument :: node where
  "slashdashArgument =
     Node (js ''node'') None None [] (Some (Document [] None)) None (Some (js '' /-1 '')) None"

definition blockCommented :: node where
  "blockCommented =
     Node (js ''node'') None None [] (Some (Document [] None)) None (Some (js '' /* c */ '')) None"

text \<open>The node \<^verbatim>\<open>b\<close> with the node \<^verbatim>\<open>a;\<close> behind a slashdash in its leading trivia.\<close>

definition afterSlashdash :: node where
  "afterSlashdash =
     Node (js ''b'') None None [] None (Some (js ''/-a;'' @ [0x0A])) None None"

text \<open>A document of one node whose name is \<^verbatim>\<open>a\<close>, a backslash, \<^verbatim>\<open>n\<close>, \<^verbatim>\<open>b\<close>, as the
  parser gives it for a name written with an escaped backslash; and a document of one node
  whose name is \<^verbatim>\<open>a\<close>, a line feed, \<^verbatim>\<open>b\<close>.\<close>

definition backslashName :: document where
  "backslashName =
     Document [Node [0x61, backslashChar, 0x6E, 0x62] None None [] None None None None] None"

definition linefeedName :: document where
  "linefeedName = Document [Node [0x61, 0x0A, 0x62] None None [] None None None None] None"

section \<open>Properties of the literal canonicalizer\<close>

lemma js_includes_iff: "js_includes s p \<longleftrightarrow> (\<exists>a b. s = a @ p @ b)"
proof (induction s)
  case Nil
  then show ?case by auto
next
  case (Cons c cs)
  have start: "startsWith (c # cs) p \<longleftrightarrow> (\<exists>b. c # cs = p @ b)"
  proof
    assume "startsWith (c # cs) p"
    then have "c # cs = p @ drop (length p) (c # cs)"
      unfolding startsWith_def by (metis append_take_drop_id)
    then show "\<exists>b. c # cs = p @ b" ..
  next
    assume "\<exists>b. c # cs = p @ b"
    then obtain b where "c # cs = p @ b" ..
    then show "startsWith (c # cs) p"
      unfolding startsWith_def by (metis append_eq_conv_conj)
  qed
  show ?case
  proof
    assume "js_includes (c # cs) p"
    then consider "startsWith (c # cs) p" | "js_includes cs p" by auto
    then show "\<exists>a b. c # cs = a @ p @ b"
    proof cases
      case 1
      with start obtain b where "c # cs = [] @ p @ b" by auto
      then show ?thesis by blast
    next
      case 2
      with Cons obtain a b where "cs = a @ p @ b" by auto
      then have "c # cs = (c # a) @ p @ b" by simp
      then show ?thesis by blast
    qed
  next
    assume "\<exists>a b. c # cs = a @ p @ b"
    then obtain a b where ab: "c # cs = a @ p @ b" by auto
    show "js_includes (c # cs) p"
    proof (cases a)
      case Nil
      with ab have "\<exists>b. c # cs = p @ b" by auto
      with start have "startsWith (c # cs) p" by blast
      then show ?thesis by simp
    next
      case (Cons x xs)
      with ab have "cs = xs @ p @ b" by simp
      with Cons.IH show ?thesis by auto
    qed
  qed
qed

lemma hashLoop_ge: "n \<le> hashLoop raw n"
proof (induction raw n rule: hashLoop.induct)
  case (1 raw n)
  show ?case
  proof (cases "js_includes raw (quoteChar # repeat hashChar n)")
    case True
    with 1 have "n + 1 \<le> hashLoop raw (n + 1)" by simp
    with True show ?thesis by (subst hashLoop.simps) simp
  next
    case False
    then show ?thesis by (subst hashLoop.simps) simp
  qed
qed

lemma hashLoop_stops: "\<not> js_includes raw (quoteChar # repeat hashChar (hashLoop raw n))"
proof (induction raw n rule: hashLoop.induct)
  case (1 raw n)
  show ?case
  proof (cases "js_includes raw (quoteChar # repeat hashChar n)")
    case True
    with 1 show ?thesis by (subst hashLoop.simps) simp
  next
    case False
    then show ?thesis by (subst hashLoop.simps) simp
  qed
qed

lemma hashLoop_below:
  "n \<le> j \<Longrightarrow> j < hashLoop raw n \<Longrightarrow> js_includes raw (quoteChar # repeat hashChar j)"
proof (induction raw n rule: hashLoop.induct)
  case (1 raw n)
  show ?case
  proof (cases "js_includes raw (quoteChar # repeat hashChar n)")
    case True
    from True have unfold: "hashLoop raw n = hashLoop raw (n + 1)"
      by (subst hashLoop.simps) simp
    show ?thesis
    proof (cases "j = n")
      case True
      with \<open>js_includes raw (quoteChar # repeat hashChar n)\<close> show ?thesis by simp
    next
      case False
      with "1.prems" have "n + 1 \<le> j" by simp
      moreover from "1.prems" unfold have "j < hashLoop raw (n + 1)" by simp
      ultimately show ?thesis using "1.IH" True by simp
    qed
  next
    case False
    then have "hashLoop raw n = n" by (subst hashLoop.simps) simp
    with "1.prems" show ?thesis by simp
  qed
qed

lemmas js_eval =
  js_def repeat_def startsWith_def endsWith_def numberOfHashes_def hashLoop.simps
  JSON_stringify_def quoteJSONChar_def leadingSurrogate_def trailingSurrogate_def
  Number_isNaN_def Number_isFinite_def ltZero_def Number_toString_def safeInteger_def integral_def
  decimalDigits.simps reservedIdentifiers_def plainIdentifierRe_def signThenDigit_def
  identifierStart_def identifierContinue_def inlineSpace_def trimStart_def trimEnd_def
  trim_def lineTerminator_def sliceDropLast_def sliceFrom1_def

lemma numberOfHashes_stops:
  "\<not> js_includes v (quoteChar # repeat hashChar (numberOfHashes v))"
  unfolding numberOfHashes_def by (rule hashLoop_stops)

lemma numberOfHashes_below:
  "j < numberOfHashes v \<Longrightarrow> js_includes v (quoteChar # repeat hashChar j)"
  unfolding numberOfHashes_def by (rule hashLoop_below) simp_all

lemma numberOfHashes_Least:
  "numberOfHashes v = (LEAST k. \<not> js_includes v (quoteChar # repeat hashChar k))"
proof (rule sym, rule Least_equality)
  show "\<not> js_includes v (quoteChar # repeat hashChar (numberOfHashes v))"
    by (rule numberOfHashes_stops)
next
  fix k
  assume "\<not> js_includes v (quoteChar # repeat hashChar k)"
  then have "\<not> k < numberOfHashes v"
    using numberOfHashes_below by blast
  then show "numberOfHashes v \<le> k" by simp
qed

text \<open>
  C2. For every string value \<open>v\<close>, \<^verbatim>\<open>printValue\<close> takes the number \<open>k\<close> of hashes that is
  the smallest for which \<open>v\<close> holds no double quote followed by \<open>k\<close> hashes: \<open>v\<close> has no
  such occurrence for \<open>k\<close> and has one for every smaller number. With \<open>k = 0\<close> the value is
  printed as the quoted string of \<^verbatim>\<open>JSON.stringify\<close>, which starts and ends with a double
  quote; otherwise as the raw string with exactly \<open>k\<close> hashes before the opening and after
  the closing quote. The string with content \<^verbatim>\<open>a"#b\<close> is printed with two hashes.
\<close>

theorem printValue_string_minimal_hashes:
  \<open>(let k = numberOfHashes v in
      (\<nexists>a b. v = a @ (quoteChar # repeat hashChar k) @ b)
    \<and> (\<forall>j<k. \<exists>a b. v = a @ (quoteChar # repeat hashChar j) @ b)
    \<and> k = (LEAST n. \<not> js_includes v (quoteChar # repeat hashChar n))
    \<and> (k = 0 \<longrightarrow> printValue ts (VString v) = JSON_stringify v
          \<and> hd (printValue ts (VString v)) = quoteChar
          \<and> last (printValue ts (VString v)) = quoteChar)
    \<and> (0 < k \<longrightarrow> printValue ts (VString v) =
          repeat hashChar k @ [quoteChar] @ v @ [quoteChar] @ repeat hashChar k))
  \<and> numberOfHashes (js ''a"#b'') = 2
  \<and> printValue ts (VString (js ''a"#b'')) = js ''##"a"#b"##''\<close>
proof -
  have none: "\<nexists>a b. v = a @ (quoteChar # repeat hashChar (numberOfHashes v)) @ b"
    using numberOfHashes_stops [of v] js_includes_iff by blast
  have below: "\<forall>j<numberOfHashes v. \<exists>a b. v = a @ (quoteChar # repeat hashChar j) @ b"
    using numberOfHashes_below [of _ v] js_includes_iff by blast
  have ex1: \<open>numberOfHashes (js ''a"#b'') = 2\<close>
    by (simp add: js_eval)
  have ex2: \<open>printValue ts (VString (js ''a"#b'')) = js ''##"a"#b"##''\<close>
    by (simp add: js_eval)
  have plain: "numberOfHashes v = 0 \<Longrightarrow> printValue ts (VString v) = JSON_stringify v
      \<and> hd (printValue ts (VString v)) = quoteChar
      \<and> last (printValue ts (VString v)) = quoteChar"
    by (simp add: JSON_stringify_def Let_def)
  have raw: "0 < numberOfHashes v \<Longrightarrow> printValue ts (VString v) =
      repeat hashChar (numberOfHashes v) @ [quoteChar] @ v @ [quoteChar]
        @ repeat hashChar (numberOfHashes v)"
    by (simp add: Let_def)
  show ?thesis
    unfolding Let_def
    using none below numberOfHashes_Least [of v] ex1 ex2 plain raw
    by blast
qed

theorem printValue_string_minimal_hashes_witness:
  \<open>(\<exists>a b. js ''a"#b'' = a @ (quoteChar # repeat hashChar 1) @ b)
   \<and> (\<nexists>a b. js ''a"#b'' = a @ (quoteChar # repeat hashChar 2) @ b)
   \<and> printValue (\<lambda>q. []) (VString (js ''a"#b'')) =
       repeat hashChar 2 @ [quoteChar] @ js ''a"#b'' @ [quoteChar] @ repeat hashChar 2
   \<and> printValue (\<lambda>q. []) (VString (js ''ab'')) = js ''"ab"''\<close>
proof -
  have k2: \<open>numberOfHashes (js ''a"#b'') = 2\<close> by (simp add: js_eval)
  have k0: \<open>numberOfHashes (js ''ab'') = 0\<close> by (simp add: js_eval)
  have s: \<open>JSON_stringify (js ''ab'') = js ''"ab"''\<close> by (simp add: js_eval)
  from printValue_string_minimal_hashes [of \<open>js ''a"#b''\<close> "\<lambda>q. []"] k2
  have a: \<open>(\<nexists>a b. js ''a"#b'' = a @ (quoteChar # repeat hashChar 2) @ b)
      \<and> (\<forall>j<2. \<exists>a b. js ''a"#b'' = a @ (quoteChar # repeat hashChar j) @ b)
      \<and> printValue (\<lambda>q. []) (VString (js ''a"#b'')) =
          repeat hashChar 2 @ [quoteChar] @ js ''a"#b'' @ [quoteChar] @ repeat hashChar 2\<close>
    by (simp add: Let_def)
  from printValue_string_minimal_hashes [of \<open>js ''ab''\<close> "\<lambda>q. []"] k0 s
  have b: \<open>printValue (\<lambda>q. []) (VString (js ''ab'')) = js ''"ab"''\<close>
    by (simp add: Let_def)
  from a have "\<exists>a b. js ''a\"#b'' = a @ (quoteChar # repeat hashChar 1) @ b" 
    by (metis one_less_numeral_iff semiring_norm(76))
  with a b show ?thesis by blast
qed

lemma digit_unat: "k < 10 \<Longrightarrow> unat (of_nat (48 + k) :: jschar) = 48 + k"
proof -
  assume "k < 10"
  then have "48 + k < 2 ^ 16" by simp
  then have "unat (word_of_nat (48 + k) :: jschar) = 48 + k"
    by (simp add: unat_of_nat take_bit_nat_eq_self del: of_nat_add)
  then show ?thesis .
qed

lemma digitsValue_decimalDigits: "digitsValue (decimalDigits n) = n"
proof (induction n rule: decimalDigits.induct)
  case (1 n)
  show ?case
  proof (cases "n < 10")
    case True
    with digit_unat [OF True] show ?thesis
      by (subst decimalDigits.simps) (simp add: digitsValue_def)
  next
    case False
    have "n mod 10 < 10" by simp
    from digit_unat [OF this] False 1 show ?thesis
      by (subst decimalDigits.simps) (simp add: digitsValue_def)
  qed
qed

lemma safeInteger_2000: "safeInteger 2000"
  by (simp add: safeInteger_def integral_def)

text \<open>
  C7. \<^verbatim>\<open>printValue\<close> prints the number NaN as \<^verbatim>\<open>#nan\<close>, positive infinity as \<^verbatim>\<open>#inf\<close>,
  negative infinity as \<^verbatim>\<open>#-inf\<close>, and every finite number as \<^verbatim>\<open>toString\<close> gives it from
  the stored value alone: for an integer of magnitude below \<open>2\<^sup>5\<^sup>3\<close> the sign and the
  decimal digits of the integer, which denote it, and for every other value what the
  conversion of the double gives. The value 2000, which is what the spelling \<^verbatim>\<open>2e3\<close>
  denotes, is printed as \<^verbatim>\<open>2000\<close>, also as the value of an entry.
\<close>

theorem printValue_number:
  "printValue ts (VNumber NaN) = js ''#nan''
   \<and> printValue ts (VNumber (Infinity False)) = js ''#inf''
   \<and> printValue ts (VNumber (Infinity True)) = js ''#-inf''
   \<and> printValue ts (VNumber (Finite q)) = Number_toString ts (Finite q)
   \<and> Number_toString ts (Finite q)
       = (if safeInteger q
          then (if q < 0 then js ''-'' else []) @ decimalDigits (nat \<bar>\<lfloor>q\<rfloor>\<bar>)
          else ts q)
   \<and> digitsValue (decimalDigits n) = n
   \<and> printValue ts (VNumber (Finite (2 * 10 ^ 3))) = js ''2000''
   \<and> printEntry E
        \<lparr>e_name = None, e_equals = None, e_tag = None, e_betweenTagAndValue = None,
         e_value = VNumber (Finite (2 * 10 ^ 3)), e_leading = leading\<rparr>
      = js ''2000''"
proof -
  have special: "printValue ts (VNumber NaN) = js ''#nan''"
    "printValue ts (VNumber (Infinity False)) = js ''#inf''"
    "printValue ts (VNumber (Infinity True)) = js ''#-inf''"
    by (simp_all add: Number_isNaN_def Number_isFinite_def ltZero_def)
  have finite: "printValue ts (VNumber (Finite q)) = Number_toString ts (Finite q)"
    by (simp add: Number_isNaN_def Number_isFinite_def)
  have conversion: "Number_toString ts (Finite q)
       = (if safeInteger q
          then (if q < 0 then js ''-'' else []) @ decimalDigits (nat \<bar>\<lfloor>q\<rfloor>\<bar>)
          else ts q)"
    by (simp add: Number_toString_def)
  have digits: "decimalDigits 2000 = js ''2000''"
    by (simp add: decimalDigits.simps js_def)
  have printed: "printValue ts (VNumber (Finite (2 * 10 ^ 3))) = js ''2000''" for ts
    by (simp add: Number_isNaN_def Number_isFinite_def Number_toString_def safeInteger_2000
        digits)
  have asEntry: "printEntry E
        \<lparr>e_name = None, e_equals = None, e_tag = None, e_betweenTagAndValue = None,
         e_value = VNumber (Finite (2 * 10 ^ 3)), e_leading = leading\<rparr>
      = js ''2000''"
    using printed by (simp add: printEntry_def)
  from special finite conversion digitsValue_decimalDigits printed asEntry show ?thesis
    by blast
qed

text \<open>
  \<^verbatim>\<open>printIdentifier\<close> prints a name bare exactly when the name is not empty, is none of
  the six reserved spellings and matches the expression for plain identifiers. In every
  other case, the empty name among them, the output is the name between double quotes with
  \<open>k\<close> hashes on each side, \<open>k\<close> being the number that \<^verbatim>\<open>printValue\<close> takes for a string
  value with the same content, and for \<open>k > 0\<close> the output is the same as for that value.
  For \<open>k = 0\<close> it need not be: see below.
\<close>

lemma printIdentifier_bare_iff:
  "(printIdentifier name = name \<longleftrightarrow>
      name \<noteq> [] \<and> name \<notin> reservedIdentifiers \<and> plainIdentifierRe name)
   \<and> (\<not> (name \<noteq> [] \<and> name \<notin> reservedIdentifiers \<and> plainIdentifierRe name) \<longrightarrow>
        (let k = numberOfHashes name in
           printIdentifier name =
             repeat hashChar k @ [quoteChar] @ name @ [quoteChar] @ repeat hashChar k
         \<and> k = (LEAST n. \<not> js_includes name (quoteChar # repeat hashChar n))
         \<and> (0 < k \<longrightarrow> printIdentifier name = printValue ts (VString name))))
   \<and> reservedIdentifiers =
        {js ''true'', js ''false'', js ''null'', js ''inf'', js ''-inf'', js ''nan''}
   \<and> printIdentifier [] = js [CHR 0x22, CHR 0x22]"
proof -
  let ?bare = "name \<noteq> [] \<and> name \<notin> reservedIdentifiers \<and> plainIdentifierRe name"
  let ?k = "numberOfHashes name"
  let ?quoted = "repeat hashChar ?k @ [quoteChar] @ name @ [quoteChar] @ repeat hashChar ?k"
  have bare: "?bare \<Longrightarrow> printIdentifier name = name"
    by (simp add: printIdentifier_def)
  have quoted: "\<not> ?bare \<Longrightarrow> printIdentifier name = ?quoted"
    by (auto simp: printIdentifier_def Let_def repeat_def)
  have "length ?quoted \<noteq> length name" by simp
  then have differs: "?quoted \<noteq> name" by metis
  have asValue: "\<not> ?bare \<Longrightarrow> 0 < ?k \<Longrightarrow> printIdentifier name = printValue ts (VString name)"
    using quoted by (simp add: Let_def)
  have res: "reservedIdentifiers =
        {js ''true'', js ''false'', js ''null'', js ''inf'', js ''-inf'', js ''nan''}"
    unfolding reservedIdentifiers_def by blast
  have empty: "printIdentifier [] = js [CHR 0x22, CHR 0x22]"
    by (simp add: printIdentifier_def js_eval)
  show ?thesis
    using bare quoted differs asValue res empty numberOfHashes_Least [of name]
    by (simp only: Let_def) metis
qed

lemma printIdentifier_bare_iff_sample:
  "printIdentifier (js ''node'') = js ''node''
   \<and> printIdentifier (js ''true'') = js [CHR 0x22, CHR ''t'', CHR ''r'', CHR ''u'', CHR ''e'', CHR 0x22]
   \<and> printIdentifier (js ''2x'') = js [CHR 0x22, CHR ''2'', CHR ''x'', CHR 0x22]"
proof -
  have n1: "js ''node'' \<noteq> [] \<and> js ''node'' \<notin> reservedIdentifiers \<and> plainIdentifierRe (js ''node'')"
    by (simp add: js_eval)
  have n2: "\<not> (js ''true'' \<noteq> [] \<and> js ''true'' \<notin> reservedIdentifiers \<and> plainIdentifierRe (js ''true''))"
    by (simp add: js_eval)
  have n3: "\<not> (js ''2x'' \<noteq> [] \<and> js ''2x'' \<notin> reservedIdentifiers \<and> plainIdentifierRe (js ''2x''))"
    by (simp add: js_eval)
  have k2: "numberOfHashes (js ''true'') = 0" by (simp add: js_eval)
  have k3: "numberOfHashes (js ''2x'') = 0" by (simp add: js_eval)
  from printIdentifier_bare_iff [of "js ''node''" "\<lambda>q. []"] n1
  have a: "printIdentifier (js ''node'') = js ''node''" by blast
  from printIdentifier_bare_iff [of "js ''true''" "\<lambda>q. []"] n2 k2
  have b: "printIdentifier (js ''true'') = [quoteChar] @ js ''true'' @ [quoteChar]"
    by (simp add: Let_def repeat_def)
  from printIdentifier_bare_iff [of "js ''2x''" "\<lambda>q. []"] n3 k3
  have c: "printIdentifier (js ''2x'') = [quoteChar] @ js ''2x'' @ [quoteChar]"
    by (simp add: Let_def repeat_def)
  from a b c show ?thesis by (simp add: js_def)
qed

text \<open>
  C8. For a name that is not printed bare and holds no double quote, \<^verbatim>\<open>printIdentifier\<close>
  does not apply the rule of the string values: \<^verbatim>\<open>printValue\<close> prints such a string
  through \<^verbatim>\<open>JSON.stringify\<close>, which escapes, and \<^verbatim>\<open>printIdentifier\<close> puts the name between
  the quotes as it is. The name \<^verbatim>\<open>a\<close>, backslash, \<^verbatim>\<open>b\<close> is not plain and takes no hash;
  as a string value it is printed with the backslash doubled, as a name with the single
  backslash, which in the printed text starts an escape.
\<close>

theorem printIdentifier_quoted_unescaped:
  "\<not> plainIdentifierRe [0x61, backslashChar, 0x62]
   \<and> numberOfHashes [0x61, backslashChar, 0x62] = 0
   \<and> printIdentifier [0x61, backslashChar, 0x62]
     = [quoteChar, 0x61, backslashChar, 0x62, quoteChar]
   \<and> printValue ts (VString [0x61, backslashChar, 0x62])
     = [quoteChar, 0x61, backslashChar, backslashChar, 0x62, quoteChar]
   \<and> printIdentifier [0x61, backslashChar, 0x62]
     \<noteq> printValue ts (VString [0x61, backslashChar, 0x62])"
proof -
  have plain: "\<not> plainIdentifierRe [0x61, backslashChar, 0x62]"
    by (simp add: js_eval)
  have hashes: "numberOfHashes [0x61, backslashChar, 0x62] = 0"
    by (simp add: js_eval)
  have asName: "printIdentifier [0x61, backslashChar, 0x62]
     = [quoteChar, 0x61, backslashChar, 0x62, quoteChar]"
    by (simp add: printIdentifier_def js_eval)
  have asString: "printValue ts (VString [0x61, backslashChar, 0x62])
     = [quoteChar, 0x61, backslashChar, backslashChar, 0x62, quoteChar]"
    by (simp add: js_eval)
  from asName asString
  have "printIdentifier [0x61, backslashChar, 0x62]
     \<noteq> printValue ts (VString [0x61, backslashChar, 0x62])"
    by simp
  with plain hashes asName asString show ?thesis by blast
qed

text \<open>The earlier revision prints the empty name and a reserved name bare, and counts the
  hashes of a string as the present one does.\<close>

lemma printIdentifier_legacy_bare:
  "printIdentifier_legacy [] = []
   \<and> printIdentifier_legacy (js ''true'') = js ''true''
   \<and> printIdentifier [] \<noteq> [] \<and> printIdentifier (js ''true'') \<noteq> js ''true''"
  by (simp add: printIdentifier_legacy_def printIdentifier_def js_eval)

lemma printString_legacy_hashes:
  \<open>printString_legacy (js ''a"#b'')
     = Group (Concat [Text (js ''r##"''), Text (js ''a"#b''), Text (js ''"##'')])
   \<and> printString_legacy (js ''ab'')
     = Group (Concat [Text [quoteChar], Text (js ''ab''), Text [quoteChar]])\<close>
  by (simp add: printString_legacy_def js_eval)

section \<open>Properties of the trivia reconciler\<close>













section \<open>The printer returns\<close>

text \<open>With bounded tokenizers \<^verbatim>\<open>printNode\<close> returns on every node: a depth of calls of the
  weight of the node suffices.\<close>

lemma lineSpaceLoop_returns:
  assumes "\<forall>m. DSlashdash m \<in> set toks \<longrightarrow> pn m \<noteq> None"
  shows "lineSpaceLoop pn toks s \<noteq> None"
  using assms
proof (induction toks arbitrary: s)
  case Nil
  then show ?case by simp
next
  case (Cons tok toks)
  then have rest: "lineSpaceLoop pn toks s' \<noteq> None" for s' by simp
  show ?case
  proof (cases tok)
    case (DSlashdash v)
    with Cons.prems have "pn v \<noteq> None" by simp
    then obtain d where "pn v = Some d" by blast
    with DSlashdash rest show ?thesis by simp
  qed (use rest in simp_all)
qed

lemma printLineSpace_returns:
  assumes "boundedTokenizers E" and "\<forall>m. weight m < length text \<longrightarrow> pn m \<noteq> None"
  shows "printLineSpace E pn text prev \<noteq> None"
proof -
  from assms have "\<forall>m. DSlashdash m \<in> set (docSpace E text) \<longrightarrow> pn m \<noteq> None"
    by (simp add: boundedTokenizers_def)
  from lineSpaceLoop_returns [OF this] show ?thesis
    by (simp add: printLineSpace_def)
qed

lemma trailingText_length: "length (trailingText t) \<le> length t"
  by (simp add: trailingText_def sliceDropLast_def)

lemma optionalLineSpace_returns:
  assumes "boundedTokenizers E"
    and "\<forall>m. weight m < length (orEmpty text) \<longrightarrow> pn m \<noteq> None"
    and "length (prepare (orEmpty text)) \<le> length (orEmpty text)"
  shows "optionalLineSpace E pn text prepare prev \<noteq> None"
proof (cases "truthy text")
  case True
  from assms(2,3) have "\<forall>m. weight m < length (prepare (orEmpty text)) \<longrightarrow> pn m \<noteq> None"
    by auto
  from printLineSpace_returns [OF assms(1) this] True show ?thesis
    by (simp add: optionalLineSpace_def)
next
  case False
  then show ?thesis by (simp add: optionalLineSpace_def)
qed

lemma printNodes_returns:
  assumes "\<forall>n \<in> set ns. \<forall>b. r n b \<noteq> None"
  shows "printNodes r first ns \<noteq> None"
  using assms
proof (induction ns arbitrary: first)
  case Nil
  then show ?case by simp
next
  case (Cons n ns)
  then have "r n first \<noteq> None" and "printNodes r False ns \<noteq> None" by simp_all
  then show ?case by auto
qed

lemma weight_member: "n \<in> set ns \<Longrightarrow> weight n \<le> sum_list (map weight ns)"
  by (induction ns) auto

lemma printDocumentWith_returns:
  assumes "boundedTokenizers E" and "\<forall>m b. weight m < documentWeight d \<longrightarrow> r m b \<noteq> None"
  shows "printDocumentWith E r d \<noteq> None"
proof (cases d)
  case (Document ns tr)
  have "\<forall>n \<in> set ns. \<forall>b. r n b \<noteq> None"
  proof (intro ballI allI)
    fix n b
    assume "n \<in> set ns"
    from weight_member [OF this] Document have "weight n < documentWeight d" by simp
    with assms(2) show "r n b \<noteq> None" by simp
  qed
  from printNodes_returns [OF this] obtain nodes where
    nodes: "printNodes r True ns = Some nodes" by blast
  have "\<forall>m. weight m < length (orEmpty tr) \<longrightarrow> r m False \<noteq> None"
    using assms(2) Document by simp
  from optionalLineSpace_returns [OF assms(1), of tr "\<lambda>n. r n False" id False, OF this]
  obtain trailing where
    "optionalLineSpace E (\<lambda>n. r n False) tr id False = Some trailing" by auto
  with nodes Document show ?thesis by (simp add: printDocumentWith_def)
qed

lemma headerLoop_returns:
  assumes "\<forall>d. NSlashdash (Inr d) \<in> set toks \<longrightarrow> pd d \<noteq> None"
  shows "headerLoop E pd toks hs \<noteq> None"
  using assms
proof (induction toks arbitrary: hs)
  case Nil
  then show ?case by simp
next
  case (Cons tok toks)
  then have rest: "headerLoop E pd toks hs' \<noteq> None" for hs' by simp
  show ?case
  proof (cases tok)
    case (NSlashdash v)
    show ?thesis
    proof (cases v)
      case (Inl e)
      with NSlashdash rest show ?thesis by simp
    next
      case (Inr d)
      with NSlashdash Cons.prems have "pd d \<noteq> None" by simp
      then obtain c where "pd d = Some c" by blast
      with NSlashdash Inr rest show ?thesis by simp
    qed
  qed (use rest in simp_all)
qed

lemma addOptionalComment_returns:
  assumes "boundedTokenizers E"
    and "\<forall>d. documentWeight d < length (orEmpty text) \<longrightarrow> pd d \<noteq> None"
  shows "addOptionalComment E pd text hs \<noteq> None"
proof -
  from assms have "\<forall>d. NSlashdash (Inr d) \<in> set (nodeSpace E (orEmpty text)) \<longrightarrow> pd d \<noteq> None"
    by (simp add: boundedTokenizers_def)
  from headerLoop_returns [OF this] show ?thesis
    by (simp add: addOptionalComment_def addCommentToHeader_def)
qed

lemma entriesLoop_returns:
  assumes "boundedTokenizers E"
    and "\<forall>e \<in> set es. \<forall>d. documentWeight d < length (orEmpty (e_leading e)) \<longrightarrow> pd d \<noteq> None"
  shows "entriesLoop E pd es hs \<noteq> None"
  using assms(2)
proof (induction es arbitrary: hs)
  case Nil
  then show ?case by simp
next
  case (Cons e es)
  then have "\<forall>d. documentWeight d < length (orEmpty (e_leading e)) \<longrightarrow> pd d \<noteq> None"
    by simp
  from addOptionalComment_returns [OF assms(1) this] obtain hs1 where
    "addOptionalComment E pd (e_leading e) hs = Some hs1" by blast
  moreover from Cons have "entriesLoop E pd es hs' \<noteq> None" for hs' by simp
  ultimately show ?case by simp
qed

lemma leading_member:
  "e \<in> set es \<Longrightarrow> length (orEmpty (e_leading e))
     \<le> sum_list (map (\<lambda>e. length (orEmpty (e_leading e))) es)"
  by (induction es) auto

lemma headerEntries_subset: "set (headerEntries node) \<subseteq> set (n_entries node)"
  by (cases "n_entries node") (auto simp: headerEntries_def)

lemma buildHeader_returns:
  assumes "boundedTokenizers E" and "\<forall>d. documentWeight d < weight node \<longrightarrow> pd d \<noteq> None"
  shows "buildHeader E pd node \<noteq> None"
proof (cases node)
  case (Node nm tg bt es ch ld bc tr)
  have "\<forall>e \<in> set (headerEntries node).
          \<forall>d. documentWeight d < length (orEmpty (e_leading e)) \<longrightarrow> pd d \<noteq> None"
  proof (intro ballI allI impI)
    fix e d
    assume "e \<in> set (headerEntries node)"
    with headerEntries_subset Node have "e \<in> set es" by fastforce
    from leading_member [OF this] Node
    have "length (orEmpty (e_leading e)) < weight node" by simp
    moreover assume "documentWeight d < length (orEmpty (e_leading e))"
    ultimately show "pd d \<noteq> None" using assms(2) by simp
  qed
  from entriesLoop_returns [OF assms(1) this] obtain hs where
    hs: "entriesLoop E pd (headerEntries node) emptyHeader = Some hs" by blast
  have "\<forall>d. documentWeight d < length (orEmpty (n_beforeChildren node)) \<longrightarrow> pd d \<noteq> None"
    using assms(2) Node by simp
  from addOptionalComment_returns [OF assms(1) this] hs show ?thesis
    by (simp add: buildHeader_def)
qed

lemma nodePart_returns:
  assumes "boundedTokenizers E" and "\<forall>m b. weight m < weight node \<longrightarrow> r m b \<noteq> None"
  shows "nodePart E r node hs \<noteq> None"
proof (cases "\<not> hasChildren node \<and> \<not> truthy (childrenTrailing node)")
  case True
  then show ?thesis by (simp add: nodePart_def)
next
  case False
  then obtain children where ch: "n_children node = Some children"
    by (cases "n_children node") (auto simp: hasChildren_def childrenTrailing_def truthy_def)
  then have "documentWeight children < weight node" by (cases node) simp
  with assms(2) have "\<forall>m b. weight m < documentWeight children \<longrightarrow> r m b \<noteq> None" by simp
  from printDocumentWith_returns [OF assms(1) this] obtain printed where
    "printDocumentWith E r children = Some printed" by blast
  with False ch show ?thesis by (simp add: nodePart_def)
qed

lemma printNodeBody_returns:
  assumes "boundedTokenizers E" and "\<forall>m b. weight m < weight node \<longrightarrow> r m b \<noteq> None"
  shows "printNodeBody E r node isFirst \<noteq> None"
proof -
  have "\<forall>d. documentWeight d < weight node \<longrightarrow> printDocumentWith E r d \<noteq> None"
  proof (intro allI impI)
    fix d
    assume "documentWeight d < weight node"
    with assms(2) have "\<forall>m b. weight m < documentWeight d \<longrightarrow> r m b \<noteq> None" by simp
    then show "printDocumentWith E r d \<noteq> None"
      by (rule printDocumentWith_returns [OF assms(1)])
  qed
  from buildHeader_returns [OF assms(1) this] obtain hs where
    hs: "buildHeader E (printDocumentWith E r) node = Some hs" by blast
  have lead: "\<forall>m. weight m < length (orEmpty (n_leading node)) \<longrightarrow> r m False \<noteq> None"
    using assms(2) by (cases node) simp
  from optionalLineSpace_returns [OF assms(1), of "n_leading node" "\<lambda>n. r n False" id, OF lead]
  obtain leadingParts where
    lp: "optionalLineSpace E (\<lambda>n. r n False) (n_leading node) id (\<not> isFirst)
           = Some leadingParts"
    by auto
  from nodePart_returns [OF assms] obtain part where
    part: "nodePart E r node hs = Some part" by blast
  have trail: "\<forall>m. weight m < length (orEmpty (n_trailing node)) \<longrightarrow> r m False \<noteq> None"
    using assms(2) by (cases node) simp
  from optionalLineSpace_returns [OF assms(1), of "n_trailing node" "\<lambda>n. r n False"
      trailingText, OF trail trailingText_length]
  obtain trailingParts where
    tp: "optionalLineSpace E (\<lambda>n. r n False) (n_trailing node) trailingText False
           = Some trailingParts"
    by auto
  from hs lp part tp show ?thesis by (simp add: printNodeBody_def)
qed

lemma weight_positive: "0 < weight node"
  by (cases node) simp

lemma printNode_returns:
  assumes "boundedTokenizers E"
  shows "weight node \<le> fuel \<Longrightarrow> printNode (Suc fuel) E node isFirst \<noteq> None"
proof (induction fuel arbitrary: node isFirst)
  case 0
  with weight_positive [of node] show ?case by simp
next
  case (Suc fuel)
  have "\<forall>m b. weight m < weight node \<longrightarrow> printNode (Suc fuel) E m b \<noteq> None"
  proof (intro allI impI)
    fix m b
    assume "weight m < weight node"
    with Suc.prems have "weight m \<le> fuel" by simp
    then show "printNode (Suc fuel) E m b \<noteq> None" by (rule Suc.IH)
  qed
  from printNodeBody_returns [OF assms this]
  show ?case by (subst printNode.simps(2))
qed

section \<open>Properties of the node assembler\<close>

lemma trailingText_semicolon: "trailingText (t @ [semicolonChar]) = t"
  by (simp add: trailingText_def endsWith_def sliceDropLast_def)

lemma optionalLineSpace_semicolon:
  assumes "\<not> endsWith t [semicolonChar]" and "t \<noteq> [] \<or> docSpace E [] = []"
  shows "optionalLineSpace E pn (Some (t @ [semicolonChar])) trailingText False
       = optionalLineSpace E pn (Some t) trailingText False"
proof (cases "t = []")
  case True
  with assms have "docSpace E [] = []" by simp
  moreover have "trailingText [semicolonChar] = []"
    using trailingText_semicolon [of "[]"] by simp
  ultimately show ?thesis
    using True
    by (simp add: optionalLineSpace_def truthy_def orEmpty_def printLineSpace_def lineSpaceInit_def)
next
  case False
  from assms(1) have "trailingText t = t" by (simp add: trailingText_def)
  with False show ?thesis
    by (simp add: optionalLineSpace_def truthy_def orEmpty_def trailingText_semicolon)
qed

text \<open>
  C10. When the trailing trivia of a node ends with a semicolon, \<^verbatim>\<open>printNode\<close> takes the
  semicolon off and hands the text in front of it to the tokenizer. The node is then
  printed exactly as the same node without the semicolon, so that the semicolon leaves
  nothing in the printed document (for a text in front that does not itself end with a
  semicolon, only one being taken off, and a tokenizer that gives no token for the empty
  text).
\<close>

theorem printNode_trailing_semicolon:
  "trailingText (t @ [semicolonChar]) = t
   \<and> optionalLineSpace E pn (Some (t @ [semicolonChar])) trailingText False
       = printLineSpace E pn t False
   \<and> (\<not> endsWith t [semicolonChar] \<and> (t \<noteq> [] \<or> docSpace E [] = [])
        \<longrightarrow> printNode fuel E (Node nm tg bt es ch ld bc (Some (t @ [semicolonChar]))) isFirst
            = printNode fuel E (Node nm tg bt es ch ld bc (Some t)) isFirst)"
proof -
  have handed: "optionalLineSpace E pn (Some (t @ [semicolonChar])) trailingText False
       = printLineSpace E pn t False"
    by (simp add: optionalLineSpace_def truthy_def orEmpty_def trailingText_semicolon)
  have same: "printNode fuel E (Node nm tg bt es ch ld bc (Some (t @ [semicolonChar]))) isFirst
            = printNode fuel E (Node nm tg bt es ch ld bc (Some t)) isFirst"
    if single: "\<not> endsWith t [semicolonChar]" and empty: "t \<noteq> [] \<or> docSpace E [] = []"
  proof (cases fuel)
    case 0
    then show ?thesis by simp
  next
    case (Suc n)
    let ?a = "Node nm tg bt es ch ld bc (Some (t @ [semicolonChar]))"
    let ?b = "Node nm tg bt es ch ld bc (Some t)"
    have fuses: "fusesArgument ?a = fusesArgument ?b"
      by (simp add: fusesArgument_def getArgumentEntries_def cong: list.case_cong)
    have entries: "headerEntries ?a = headerEntries ?b"
      by (simp add: headerEntries_def fuses)
    have hdr: "buildHeader E pd ?a = buildHeader E pd ?b" for pd
      by (simp add: buildHeader_def entries cong: option.case_cong)
    have name: "nodeName ?a = nodeName ?b"
      by (simp add: nodeName_def cong: option.case_cong)
    have head: "headName E ?a = headName E ?b"
      by (simp add: headName_def fuses name getArgumentEntries_def)
    have align: "nameAlign E ?a = nameAlign E ?b"
      by (simp add: nameAlign_def name)
    have kids: "hasChildren ?a = hasChildren ?b" "childrenTrailing ?a = childrenTrailing ?b"
      by (simp_all add: hasChildren_def childrenTrailing_def)
    have part: "nodePart E r ?a hs = nodePart E r ?b hs" for r hs
      unfolding nodePart_def head align kids by simp
    have body: "printNodeBody E r ?a isFirst = printNodeBody E r ?b isFirst" for r
      unfolding printNodeBody_def hdr part
      by (simp add: optionalLineSpace_semicolon [OF single empty] cong: option.case_cong)
    show ?thesis
      unfolding Suc printNode.simps by (simp add: body)
  qed
  from trailingText_semicolon [of t] handed same show ?thesis by blast
qed

lemma headerGroup_contents: "headerGroup name align items = Group (headerContents name align items)"
  by (simp add: headerGroup_def headerContents_def Let_def)

lemma nodePart_shape:
  assumes "nodePart E r node hs = Some X"
  shows "if \<not> hasChildren node \<and> \<not> truthy (childrenTrailing node)
         then X = nodeGroup E node hs
         else (\<exists>printed. X = Concat [nodeGroup E node hs, Indent (Concat [Hardline, printed]),
                                      Hardline, Text (js ''}'')])"
  using assms
  by (auto simp: nodePart_def nodeGroup_def finalItems_def split: option.splits if_splits)

lemma printNodeBody_shape:
  assumes "printNodeBody E r node b = Some d"
  shows "\<exists>hs pre X post.
           buildHeader E (printDocumentWith E r) node = Some hs
         \<and> nodePart E r node hs = Some X
         \<and> d = join Hardline (pre @ [X] @ post)"
  using assms unfolding printNodeBody_def
  by (auto split: option.splits)

lemma printNode_shape:
  assumes "printNode (Suc fuel) E node b = Some d"
  shows "\<exists>hs pre X post.
           buildHeader E (printDocument fuel E) node = Some hs
         \<and> d = join Hardline (pre @ [X] @ post)
         \<and> (if \<not> hasChildren node \<and> \<not> truthy (childrenTrailing node)
            then X = nodeGroup E node hs
            else (\<exists>printed. X = Concat [nodeGroup E node hs, Indent (Concat [Hardline, printed]),
                                         Hardline, Text (js ''}'')]))"
proof -
  have pd: "printDocumentWith E (printNode fuel E) = printDocument fuel E"
    by (rule ext) (simp add: printDocument_def)
  from assms have "printNodeBody E (printNode fuel E) node b = Some d" by simp
  from printNodeBody_shape [OF this] obtain hs pre X post where
    "buildHeader E (printDocument fuel E) node = Some hs"
    "nodePart E (printNode fuel E) node hs = Some X"
    "d = join Hardline (pre @ [X] @ post)"
    unfolding pd by blast
  with nodePart_shape [of E "printNode fuel E" node hs X] show ?thesis by blast
qed

lemma trim_empty_iff: "trim s = [] \<longleftrightarrow> (\<forall>c \<in> set s. inlineSpace c)"
proof
  assume "trim s = []"
  then have all: "\<forall>x \<in> set (dropWhile inlineSpace s). inlineSpace x"
    by (simp add: trim_def trimEnd_def trimStart_def dropWhile_eq_Nil_conv)
  have "dropWhile inlineSpace s = []"
  proof (rule ccontr)
    assume ne: "dropWhile inlineSpace s \<noteq> []"
    then have "\<not> inlineSpace (hd (dropWhile inlineSpace s))" by (rule hd_dropWhile)
    moreover from ne have "hd (dropWhile inlineSpace s) \<in> set (dropWhile inlineSpace s)" by simp
    ultimately show False using all by blast
  qed
  then show "\<forall>c \<in> set s. inlineSpace c" by (simp add: dropWhile_eq_Nil_conv)
next
  assume "\<forall>c \<in> set s. inlineSpace c"
  then have d: "dropWhile inlineSpace s = []" by (simp add: dropWhile_eq_Nil_conv)
  show "trim s = []" unfolding trim_def trimEnd_def trimStart_def d by simp
qed

lemma fusesArgument_iff:
  "fusesArgument node \<longleftrightarrow>
     length (filter (\<lambda>e. e_name e = None) (n_entries node)) = 1
   \<and> n_entries node \<noteq> [] \<and> e_name (hd (n_entries node)) = None
   \<and> (e_leading (hd (n_entries node)) = None
      \<or> (\<forall>c \<in> set (orEmpty (e_leading (hd (n_entries node)))). inlineSpace c))"
proof (cases "n_entries node")
  case Nil
  then show ?thesis by (simp add: fusesArgument_def getArgumentEntries_def)
next
  case (Cons e es)
  show ?thesis
  proof (cases "e_name e = None")
    case True
    then have f: "filter (\<lambda>e. e_name e = None) (n_entries node)
        = e # filter (\<lambda>e. e_name e = None) es"
      using Cons by simp
    show ?thesis
      unfolding fusesArgument_def getArgumentEntries_def f
      using Cons True
      by (auto simp: trim_empty_iff truthy_def orEmpty_def split: list.splits option.splits)
  next
    case False
    then show ?thesis
      unfolding fusesArgument_def getArgumentEntries_def
      using Cons by (auto split: list.splits)
  qed
qed

lemma fused_headName:
  assumes "fusesArgument node"
  shows "headName E node = nodeName node @ [spaceChar] @ printEntry E (hd (n_entries node))"
proof -
  from assms have c: "n_entries node \<noteq> []" "e_name (hd (n_entries node)) = None"
    by (simp_all add: fusesArgument_iff)
  then have "hd (getArgumentEntries node) = hd (n_entries node)"
    by (cases "n_entries node") (simp_all add: getArgumentEntries_def)
  with assms show ?thesis by (simp add: headName_def)
qed

lemma sole_header:
  assumes "headerEntries node = []" "n_children node = None" "\<not> truthy (n_beforeChildren node)"
    and "buildHeader E pd node = Some hs"
  shows "finalItems node hs = []"
  using assms
  by (auto simp: buildHeader_def addOptionalComment_def emptyHeader_def finalItems_def
      hasChildren_def childrenTrailing_def truthy_def)

lemma render_flat_empty_header:
  assumes "fits L (fst st) (headerContents name align [])"
  shows "snd (render L i m (headerGroup name align []) st) = snd st @ name @ [spaceChar]"
proof -
  have "\<not> forcedBreak (headerContents name align [])"
    by (simp add: forcedBreak_def headerContents_def continuation_def join_def)
  with assms have "\<not> brokenGroup L (fst st) (headerContents name align [])"
    by (simp add: brokenGroup_def)
  then show ?thesis
    by (simp add: headerGroup_contents headerContents_def continuation_def join_def emit_def)
qed

lemmas printer_eval =
  printNodeBody_def nodePart_def buildHeader_def headerEntries_def fusesArgument_def
  getArgumentEntries_def headName_def nameAlign_def nodeName_def hasChildren_def
  childrenTrailing_def optionalLineSpace_def printLineSpace_def lineSpaceInit_def
  addOptionalComment_def addCommentToHeader_def truthy_def orEmpty_def emptyHeader_def
  pushContinuation_def pushItem_def pushLoose_def detach_def pushSingleline_def
  singlelineItem_def pushContent_def printEntry_def printTag_def printIdentifier_def
  headerGroup_def join_def continuation_def trailingText_def printDocumentWith_def
  printDocument_def headerComment_def multilineComment_def starred_def
  sampleEnv_def sampleDocSpace_def sampleNodeSpace_def sampleArgument_def
  sampleProperty_def escapedComment_def twoProperties_def commentedProperties_def
  slashdashArgument_def blockCommented_def backslashName_def linefeedName_def print_def

lemmas layout_eval =
  forcedBreak_def fits_def brokenGroup_def newline_def emit_def renderText_def
  sampleLayout_def narrowLayout_def finalItems_def headerContents_def nodeGroup_def

theorem printNode_trailing_semicolon_witness:
  "printNode 1 sampleEnv
     (Node (js ''child'') None None [] None None None (Some [semicolonChar])) False
   = Some (join Hardline [headerGroup (js ''child'') (length (js ''child'') + 1) []])
   \<and> printNode 1 sampleEnv
     (Node (js ''child'') None None [] None None None (Some (js '' ;''))) False
   = Some (join Hardline [headerGroup (js ''child'') (length (js ''child'') + 1) []])"
proof -
  have plain: "printNode 1 sampleEnv
      (Node (js ''child'') None None [] None None None (Some [])) False
    = Some (join Hardline [headerGroup (js ''child'') (length (js ''child'') + 1) []])"
    by (simp add: printer_eval js_eval)
  have blank: "printNode 1 sampleEnv
      (Node (js ''child'') None None [] None None None (Some (js '' ''))) False
    = Some (join Hardline [headerGroup (js ''child'') (length (js ''child'') + 1) []])"
    by (simp add: printer_eval js_eval)
  have h1: "\<not> endsWith [] [semicolonChar]" "\<not> endsWith (js '' '') [semicolonChar]"
    by (simp_all add: js_eval)
  have h2: "[] \<noteq> ([] :: jsstring) \<or> docSpace sampleEnv [] = []"
    "js '' '' \<noteq> [] \<or> docSpace sampleEnv [] = []"
    by (simp_all add: printer_eval js_eval)
  have semi: "js '' ;'' = js '' '' @ [semicolonChar]" by (simp add: js_eval)
  from printNode_trailing_semicolon
    [of "[]" sampleEnv _ 1 "js ''child''" None None "[]" None None None False]
    h1(1) h2(1) plain
  have a: "printNode 1 sampleEnv
     (Node (js ''child'') None None [] None None None (Some [semicolonChar])) False
   = Some (join Hardline [headerGroup (js ''child'') (length (js ''child'') + 1) []])"
    by simp
  from printNode_trailing_semicolon
    [of "js '' ''" sampleEnv _ 1 "js ''child''" None None "[]" None None None False]
    h1(2) h2(2) blank
  have b: "printNode 1 sampleEnv
     (Node (js ''child'') None None [] None None None (Some (js '' ;''))) False
   = Some (join Hardline [headerGroup (js ''child'') (length (js ''child'') + 1) []])"
    unfolding semi by simp
  from a b show ?thesis by blast
qed

lemma sampleEnv_bounded: "boundedTokenizers sampleEnv"
  by (simp add: boundedTokenizers_def sampleEnv_def sampleDocSpace_def sampleNodeSpace_def
      orEmpty_def js_def)

text \<open>A run through a slashdash node: the node \<^verbatim>\<open>b\<close> after \<^verbatim>\<open>/-a;\<close> is printed
  by a call inside a call, and not within a depth of one.\<close>

lemma printNode_afterSlashdash:
  "printNode 1 sampleEnv afterSlashdash True = None
   \<and> printNode 2 sampleEnv afterSlashdash True
     = Some (join Hardline
         [Concat [Text (js ''/-''), join Hardline [headerGroup (js ''a'') (length (js ''a'') + 1) []]],
          headerGroup (js ''b'') (length (js ''b'') + 1) []])
   \<and> weight afterSlashdash = 6"
proof -
  have two: "(2 :: nat) = Suc (Suc 0)" by simp
  have shallow: "printNode 1 sampleEnv afterSlashdash True = None"
    by (simp add: printer_eval afterSlashdash_def js_eval)
  have deep: "printNode 2 sampleEnv afterSlashdash True
     = Some (join Hardline
         [Concat [Text (js ''/-''), join Hardline [headerGroup (js ''a'') (length (js ''a'') + 1) []]],
          headerGroup (js ''b'') (length (js ''b'') + 1) []])"
    unfolding two by (simp add: printer_eval afterSlashdash_def js_eval)
  have heavy: "weight afterSlashdash = 6"
    by (simp add: afterSlashdash_def orEmpty_def js_def)
  from shallow deep heavy show ?thesis by blast
qed

lemma fused_argument_shape:
  assumes "length (filter (\<lambda>e. e_name e = None) (n_entries node)) = 1"
      and "n_entries node \<noteq> []"
      and "e_name (hd (n_entries node)) = None"
      and "e_leading (hd (n_entries node)) = None
           \<or> (\<forall>c \<in> set (orEmpty (e_leading (hd (n_entries node)))). inlineSpace c)"
      and "printNode (Suc fuel) E node isFirst = Some d"
  shows "\<exists>hs pre X post G.
           G = headerGroup (nodeName node @ [spaceChar] @ printEntry E (hd (n_entries node)))
                 (nameAlign E node) (finalItems node hs)
         \<and> (case entriesLoop E (printDocument fuel E) (tl (n_entries node)) emptyHeader of
               None \<Rightarrow> None
             | Some hs' \<Rightarrow> addOptionalComment E (printDocument fuel E) (n_beforeChildren node) hs')
             = Some hs
         \<and> d = join Hardline (pre @ [X] @ post)
         \<and> (if \<not> hasChildren node \<and> \<not> truthy (childrenTrailing node) then X = G
             else (\<exists>printed. X = Concat [G, Indent (Concat [Hardline, printed]),
                                          Hardline, Text (js ''}'')]))
         \<and> (tl (n_entries node) = [] \<and> n_children node = None \<and> \<not> truthy (n_beforeChildren node)
              \<longrightarrow> finalItems node hs = [] \<and> X = G
                \<and> (\<not> truthy (n_leading node) \<and> \<not> truthy (n_trailing node)
                      \<longrightarrow> d = join Hardline [G])
                \<and> (\<forall>L i m st.
                      fits L (fst st)
                        (headerContents
                           (nodeName node @ [spaceChar] @ printEntry E (hd (n_entries node)))
                           (nameAlign E node) [])
                      \<longrightarrow> snd (render L i m G st)
                          = snd st @ nodeName node @ [spaceChar]
                              @ printEntry E (hd (n_entries node)) @ [spaceChar]))"
proof -
  from assms(1-4) have fuses: "fusesArgument node" by (simp add: fusesArgument_iff)
  then have entries: "headerEntries node = tl (n_entries node)"
    by (simp add: headerEntries_def)
  note fused = fused_headName [OF fuses, of E]
  have pd: "printDocumentWith E (printNode fuel E) = printDocument fuel E"
    by (rule ext) (simp add: printDocument_def)
  from assms(5) have body: "printNodeBody E (printNode fuel E) node isFirst = Some d" by simp
  then obtain hs pre X post where
    hs: "buildHeader E (printDocument fuel E) node = Some hs"
    and part: "nodePart E (printNode fuel E) node hs = Some X"
    and pre: "optionalLineSpace E (\<lambda>n. printNode fuel E n False) (n_leading node) id
                (\<not> isFirst) = Some pre"
    and post: "optionalLineSpace E (\<lambda>n. printNode fuel E n False) (n_trailing node)
                trailingText False = Some post"
    and d: "d = join Hardline (pre @ [X] @ post)"
    unfolding printNodeBody_def pd by (auto split: option.splits)
  let ?name = "nodeName node @ [spaceChar] @ printEntry E (hd (n_entries node))"
  let ?G = "headerGroup ?name (nameAlign E node) (finalItems node hs)"
  have G: "nodeGroup E node hs = ?G"
    by (simp add: nodeGroup_def fused)
  have X: "if \<not> hasChildren node \<and> \<not> truthy (childrenTrailing node) then X = ?G
             else (\<exists>printed. X = Concat [?G, Indent (Concat [Hardline, printed]),
                                          Hardline, Text (js ''}'')])"
    using nodePart_shape [OF part] unfolding G .
  have loop: "(case entriesLoop E (printDocument fuel E) (tl (n_entries node)) emptyHeader of
               None \<Rightarrow> None
             | Some hs' \<Rightarrow> addOptionalComment E (printDocument fuel E) (n_beforeChildren node) hs')
             = Some hs"
    using hs by (simp add: buildHeader_def entries)
  have sole: "finalItems node hs = [] \<and> X = ?G
      \<and> (\<not> truthy (n_leading node) \<and> \<not> truthy (n_trailing node) \<longrightarrow> d = join Hardline [?G])
      \<and> (\<forall>L i m st. fits L (fst st) (headerContents ?name (nameAlign E node) [])
            \<longrightarrow> snd (render L i m ?G st)
                = snd st @ nodeName node @ [spaceChar]
                    @ printEntry E (hd (n_entries node)) @ [spaceChar])"
    if sole: "tl (n_entries node) = [] \<and> n_children node = None \<and> \<not> truthy (n_beforeChildren node)"
  proof -
    from sole entries have e: "headerEntries node = []" by simp
    from sole_header [OF e _ _ hs] sole have items: "finalItems node hs = []" by simp
    from sole have "\<not> hasChildren node \<and> \<not> truthy (childrenTrailing node)"
      by (simp add: hasChildren_def childrenTrailing_def truthy_def)
    with X have XG: "X = ?G" by simp
    have alone: "d = join Hardline [?G]"
      if "\<not> truthy (n_leading node) \<and> \<not> truthy (n_trailing node)"
      using that pre post d XG by (simp add: optionalLineSpace_def)
    show ?thesis
      using items XG alone render_flat_empty_header [of _ _ ?name "nameAlign E node"]
      by simp
  qed
  have soleI: "tl (n_entries node) = [] \<and> n_children node = None \<and> \<not> truthy (n_beforeChildren node)
              \<longrightarrow> finalItems node hs = [] \<and> X = ?G
                \<and> (\<not> truthy (n_leading node) \<and> \<not> truthy (n_trailing node)
                      \<longrightarrow> d = join Hardline [?G])
                \<and> (\<forall>L i m st. fits L (fst st) (headerContents ?name (nameAlign E node) [])
                      \<longrightarrow> snd (render L i m ?G st)
                          = snd st @ nodeName node @ [spaceChar]
                              @ printEntry E (hd (n_entries node)) @ [spaceChar])"
    by (rule impI) (rule sole)
  show ?thesis
    by (rule exI [of _ hs], rule exI [of _ pre], rule exI [of _ X], rule exI [of _ post],
        rule exI [of _ ?G]) (intro conjI refl loop d X soleI)
qed

lemma fused_argument_returns:
  assumes "length (filter (\<lambda>e. e_name e = None) (n_entries node)) = 1"
      and "n_entries node \<noteq> []"
      and "e_name (hd (n_entries node)) = None"
      and "e_leading (hd (n_entries node)) = None
           \<or> (\<forall>c \<in> set (orEmpty (e_leading (hd (n_entries node)))). inlineSpace c)"
      and "boundedTokenizers E" and "weight node \<le> fuel"
  shows "\<exists>d. printNode (Suc fuel) E node isFirst = Some d
               \<and> (\<exists>hs pre X post G.
           G = headerGroup (nodeName node @ [spaceChar] @ printEntry E (hd (n_entries node)))
                 (nameAlign E node) (finalItems node hs)
         \<and> (case entriesLoop E (printDocument fuel E) (tl (n_entries node)) emptyHeader of
               None \<Rightarrow> None
             | Some hs' \<Rightarrow> addOptionalComment E (printDocument fuel E) (n_beforeChildren node) hs')
             = Some hs
         \<and> d = join Hardline (pre @ [X] @ post)
         \<and> (if \<not> hasChildren node \<and> \<not> truthy (childrenTrailing node) then X = G
             else (\<exists>printed. X = Concat [G, Indent (Concat [Hardline, printed]),
                                          Hardline, Text (js ''}'')]))
         \<and> (tl (n_entries node) = [] \<and> n_children node = None \<and> \<not> truthy (n_beforeChildren node)
              \<longrightarrow> finalItems node hs = [] \<and> X = G
                \<and> (\<not> truthy (n_leading node) \<and> \<not> truthy (n_trailing node)
                      \<longrightarrow> d = join Hardline [G])
                \<and> (\<forall>L i m st.
                      fits L (fst st)
                        (headerContents
                           (nodeName node @ [spaceChar] @ printEntry E (hd (n_entries node)))
                           (nameAlign E node) [])
                      \<longrightarrow> snd (render L i m G st)
                          = snd st @ nodeName node @ [spaceChar]
                              @ printEntry E (hd (n_entries node)) @ [spaceChar])))"
proof -
  from printNode_returns [OF assms(5,6)]
  have "printNode (Suc fuel) E node isFirst \<noteq> None" .
  then obtain d where d: "printNode (Suc fuel) E node isFirst = Some d" by blast
  note shape = fused_argument_shape [OF assms(1-4) d]
  show ?thesis
    apply (rule exI [of _ d])
    apply (rule conjI)
     apply (rule d)
    apply (rule shape)
    done
qed

lemma fused_argument_alone:
  assumes "length (filter (\<lambda>e. e_name e = None) (n_entries node)) = 1"
      and "n_entries node \<noteq> []"
      and "e_name (hd (n_entries node)) = None"
      and "e_leading (hd (n_entries node)) = None
           \<or> (\<forall>c \<in> set (orEmpty (e_leading (hd (n_entries node)))). inlineSpace c)"
      and alone: "tl (n_entries node) = [] \<and> n_children node = None
            \<and> \<not> truthy (n_beforeChildren node)
            \<and> \<not> truthy (n_leading node) \<and> \<not> truthy (n_trailing node)"
  shows "printNode (Suc fuel) E node isFirst
                = Some (join Hardline
                    [headerGroup (nodeName node @ [spaceChar] @ printEntry E (hd (n_entries node)))
                       (nameAlign E node) []])
            \<and> (\<forall>L i m st.
                  fits L (fst st)
                    (headerContents
                       (nodeName node @ [spaceChar] @ printEntry E (hd (n_entries node)))
                       (nameAlign E node) [])
                  \<longrightarrow> snd (render L i m
                             (headerGroup
                                (nodeName node @ [spaceChar] @ printEntry E (hd (n_entries node)))
                                (nameAlign E node) []) st)
                      = snd st @ nodeName node @ [spaceChar]
                          @ printEntry E (hd (n_entries node)) @ [spaceChar])"
proof (rule conjI)
  let ?name = "nodeName node @ [spaceChar] @ printEntry E (hd (n_entries node))"
  let ?G = "headerGroup ?name (nameAlign E node) []"
  from assms(1-4) have fuses: "fusesArgument node" by (simp add: fusesArgument_iff)
  note fused = fused_headName [OF fuses, of E]
  from fuses alone have entries: "headerEntries node = []"
    by (simp add: headerEntries_def)
  from alone entries have hs: "buildHeader E pd node = Some emptyHeader" for pd
    by (simp add: buildHeader_def addOptionalComment_def)
  from alone have part: "nodePart E r node emptyHeader = Some ?G" for r
    by (simp add: nodePart_def hasChildren_def childrenTrailing_def truthy_def fused
        emptyHeader_def)
  from alone have around:
    "optionalLineSpace E pn (n_leading node) id (\<not> isFirst) = Some []"
    "optionalLineSpace E pn (n_trailing node) trailingText False = Some []" for pn
    by (simp_all add: optionalLineSpace_def)
  show "printNode (Suc fuel) E node isFirst = Some (join Hardline [?G])"
    by (simp add: printNodeBody_def hs part around)
  show "\<forall>L i m st.
          fits L (fst st) (headerContents ?name (nameAlign E node) [])
          \<longrightarrow> snd (render L i m ?G st)
              = snd st @ nodeName node @ [spaceChar]
                  @ printEntry E (hd (n_entries node)) @ [spaceChar]"
    using render_flat_empty_header [of _ _ ?name "nameAlign E node"] by simp
qed

text \<open>
  C4. A node with exactly one unnamed entry, which is its first entry and whose leading
  trivia is absent or inline space only, has that entry printed after the name, with one
  space between, as the string at the head of the header group; the header items are
  built from the entries after it. With bounded tokenizers and a depth of calls of the
  weight of the node, \<^verbatim>\<open>printNode\<close> returns such a document. With no other entry, no
  children block and no trivia before the block there is no header item at all; with no
  trivia around the node either, \<^verbatim>\<open>printNode\<close> returns, whatever the tokenizers are, the
  header group alone, which the layout renders on one line as the name, a space, the
  entry and the blank of the empty header whenever it fits.
\<close>

theorem printNode_fused_argument:
  assumes "length (filter (\<lambda>e. e_name e = None) (n_entries node)) = 1"
      and "n_entries node \<noteq> []"
      and "e_name (hd (n_entries node)) = None"
      and "e_leading (hd (n_entries node)) = None
           \<or> (\<forall>c \<in> set (orEmpty (e_leading (hd (n_entries node)))). inlineSpace c)"
  shows "(boundedTokenizers E \<and> weight node \<le> fuel
          \<longrightarrow> (\<exists>d. printNode (Suc fuel) E node isFirst = Some d
               \<and> (\<exists>hs pre X post G.
           G = headerGroup (nodeName node @ [spaceChar] @ printEntry E (hd (n_entries node)))
                 (nameAlign E node) (finalItems node hs)
         \<and> (case entriesLoop E (printDocument fuel E) (tl (n_entries node)) emptyHeader of
               None \<Rightarrow> None
             | Some hs' \<Rightarrow> addOptionalComment E (printDocument fuel E) (n_beforeChildren node) hs')
             = Some hs
         \<and> d = join Hardline (pre @ [X] @ post)
         \<and> (if \<not> hasChildren node \<and> \<not> truthy (childrenTrailing node) then X = G
             else (\<exists>printed. X = Concat [G, Indent (Concat [Hardline, printed]),
                                          Hardline, Text (js ''}'')]))
         \<and> (tl (n_entries node) = [] \<and> n_children node = None \<and> \<not> truthy (n_beforeChildren node)
              \<longrightarrow> finalItems node hs = [] \<and> X = G
                \<and> (\<not> truthy (n_leading node) \<and> \<not> truthy (n_trailing node)
                      \<longrightarrow> d = join Hardline [G])
                \<and> (\<forall>L i m st.
                      fits L (fst st)
                        (headerContents
                           (nodeName node @ [spaceChar] @ printEntry E (hd (n_entries node)))
                           (nameAlign E node) [])
                      \<longrightarrow> snd (render L i m G st)
                          = snd st @ nodeName node @ [spaceChar]
                              @ printEntry E (hd (n_entries node)) @ [spaceChar])))))
       \<and> (tl (n_entries node) = [] \<and> n_children node = None
            \<and> \<not> truthy (n_beforeChildren node)
            \<and> \<not> truthy (n_leading node) \<and> \<not> truthy (n_trailing node)
          \<longrightarrow> printNode (Suc fuel) E node isFirst
                = Some (join Hardline
                    [headerGroup (nodeName node @ [spaceChar] @ printEntry E (hd (n_entries node)))
                       (nameAlign E node) []])
            \<and> (\<forall>L i m st.
                  fits L (fst st)
                    (headerContents
                       (nodeName node @ [spaceChar] @ printEntry E (hd (n_entries node)))
                       (nameAlign E node) [])
                  \<longrightarrow> snd (render L i m
                             (headerGroup
                                (nodeName node @ [spaceChar] @ printEntry E (hd (n_entries node)))
                                (nameAlign E node) []) st)
                      = snd st @ nodeName node @ [spaceChar]
                          @ printEntry E (hd (n_entries node)) @ [spaceChar]))"
proof -
  have returns: "boundedTokenizers E \<and> weight node \<le> fuel
          \<longrightarrow> (\<exists>d. printNode (Suc fuel) E node isFirst = Some d
               \<and> (\<exists>hs pre X post G.
           G = headerGroup (nodeName node @ [spaceChar] @ printEntry E (hd (n_entries node)))
                 (nameAlign E node) (finalItems node hs)
         \<and> (case entriesLoop E (printDocument fuel E) (tl (n_entries node)) emptyHeader of
               None \<Rightarrow> None
             | Some hs' \<Rightarrow> addOptionalComment E (printDocument fuel E) (n_beforeChildren node) hs')
             = Some hs
         \<and> d = join Hardline (pre @ [X] @ post)
         \<and> (if \<not> hasChildren node \<and> \<not> truthy (childrenTrailing node) then X = G
             else (\<exists>printed. X = Concat [G, Indent (Concat [Hardline, printed]),
                                          Hardline, Text (js ''}'')]))
         \<and> (tl (n_entries node) = [] \<and> n_children node = None \<and> \<not> truthy (n_beforeChildren node)
              \<longrightarrow> finalItems node hs = [] \<and> X = G
                \<and> (\<not> truthy (n_leading node) \<and> \<not> truthy (n_trailing node)
                      \<longrightarrow> d = join Hardline [G])
                \<and> (\<forall>L i m st.
                      fits L (fst st)
                        (headerContents
                           (nodeName node @ [spaceChar] @ printEntry E (hd (n_entries node)))
                           (nameAlign E node) [])
                      \<longrightarrow> snd (render L i m G st)
                          = snd st @ nodeName node @ [spaceChar]
                              @ printEntry E (hd (n_entries node)) @ [spaceChar]))))"
  proof
    assume "boundedTokenizers E \<and> weight node \<le> fuel"
    then have "boundedTokenizers E" and "weight node \<le> fuel" by simp_all
    then show "\<exists>d. printNode (Suc fuel) E node isFirst = Some d
               \<and> (\<exists>hs pre X post G.
           G = headerGroup (nodeName node @ [spaceChar] @ printEntry E (hd (n_entries node)))
                 (nameAlign E node) (finalItems node hs)
         \<and> (case entriesLoop E (printDocument fuel E) (tl (n_entries node)) emptyHeader of
               None \<Rightarrow> None
             | Some hs' \<Rightarrow> addOptionalComment E (printDocument fuel E) (n_beforeChildren node) hs')
             = Some hs
         \<and> d = join Hardline (pre @ [X] @ post)
         \<and> (if \<not> hasChildren node \<and> \<not> truthy (childrenTrailing node) then X = G
             else (\<exists>printed. X = Concat [G, Indent (Concat [Hardline, printed]),
                                          Hardline, Text (js ''}'')]))
         \<and> (tl (n_entries node) = [] \<and> n_children node = None \<and> \<not> truthy (n_beforeChildren node)
              \<longrightarrow> finalItems node hs = [] \<and> X = G
                \<and> (\<not> truthy (n_leading node) \<and> \<not> truthy (n_trailing node)
                      \<longrightarrow> d = join Hardline [G])
                \<and> (\<forall>L i m st.
                      fits L (fst st)
                        (headerContents
                           (nodeName node @ [spaceChar] @ printEntry E (hd (n_entries node)))
                           (nameAlign E node) [])
                      \<longrightarrow> snd (render L i m G st)
                          = snd st @ nodeName node @ [spaceChar]
                              @ printEntry E (hd (n_entries node)) @ [spaceChar])))"
      by (rule fused_argument_returns [OF assms])
  qed
  have alone: "tl (n_entries node) = [] \<and> n_children node = None
            \<and> \<not> truthy (n_beforeChildren node)
            \<and> \<not> truthy (n_leading node) \<and> \<not> truthy (n_trailing node)
          \<longrightarrow> printNode (Suc fuel) E node isFirst
                = Some (join Hardline
                    [headerGroup (nodeName node @ [spaceChar] @ printEntry E (hd (n_entries node)))
                       (nameAlign E node) []])
            \<and> (\<forall>L i m st.
                  fits L (fst st)
                    (headerContents
                       (nodeName node @ [spaceChar] @ printEntry E (hd (n_entries node)))
                       (nameAlign E node) [])
                  \<longrightarrow> snd (render L i m
                             (headerGroup
                                (nodeName node @ [spaceChar] @ printEntry E (hd (n_entries node)))
                                (nameAlign E node) []) st)
                      = snd st @ nodeName node @ [spaceChar]
                          @ printEntry E (hd (n_entries node)) @ [spaceChar])"
  proof
    assume "tl (n_entries node) = [] \<and> n_children node = None
            \<and> \<not> truthy (n_beforeChildren node)
            \<and> \<not> truthy (n_leading node) \<and> \<not> truthy (n_trailing node)"
    then show "printNode (Suc fuel) E node isFirst
                = Some (join Hardline
                    [headerGroup (nodeName node @ [spaceChar] @ printEntry E (hd (n_entries node)))
                       (nameAlign E node) []])
            \<and> (\<forall>L i m st.
                  fits L (fst st)
                    (headerContents
                       (nodeName node @ [spaceChar] @ printEntry E (hd (n_entries node)))
                       (nameAlign E node) [])
                  \<longrightarrow> snd (render L i m
                             (headerGroup
                                (nodeName node @ [spaceChar] @ printEntry E (hd (n_entries node)))
                                (nameAlign E node) []) st)
                      = snd st @ nodeName node @ [spaceChar]
                          @ printEntry E (hd (n_entries node)) @ [spaceChar])"
      by (rule fused_argument_alone [OF assms])
  qed
  from returns alone show ?thesis by (rule conjI)
qed

theorem printNode_fused_argument_witness:
  \<open>printNode 3 sampleEnv
     (Node (js ''node'') None None [sampleArgument (VString (js ''value''))] None None None None)
     True
   = Some (join Hardline [headerGroup (js ''node "value"'') (length (js ''node'') + 1) []])
   \<and> renderText sampleLayout
       (join Hardline [headerGroup (js ''node "value"'') (length (js ''node'') + 1) []])
     = js ''node "value" ''\<close>
proof -
  let ?node = "Node (js ''node'') None None [sampleArgument (VString (js ''value''))]
                 None None None None"
  let ?G = \<open>headerGroup (js ''node "value"'') (length (js ''node'') + 1) []\<close>
  have h1: "length (filter (\<lambda>e. e_name e = None) (n_entries ?node)) = 1"
    and h2: "n_entries ?node \<noteq> []"
    and h3: "e_name (hd (n_entries ?node)) = None"
    and h4: "e_leading (hd (n_entries ?node)) = None
       \<or> (\<forall>c \<in> set (orEmpty (e_leading (hd (n_entries ?node)))). inlineSpace c)"
    by (simp_all add: printer_eval js_eval)
  have name: \<open>nodeName ?node @ [spaceChar] @ printEntry sampleEnv (hd (n_entries ?node))
      = js ''node "value"''\<close>
    by (simp add: printer_eval js_eval)
  have align: "nameAlign sampleEnv ?node = length (js ''node'') + 1"
    by (simp add: printer_eval js_eval)
  have bounded: "boundedTokenizers sampleEnv \<and> weight ?node \<le> 2"
    by (simp add: sampleEnv_bounded sampleArgument_def orEmpty_def js_def)
  have alone: "tl (n_entries ?node) = [] \<and> n_children ?node = None
      \<and> \<not> truthy (n_beforeChildren ?node)
      \<and> \<not> truthy (n_leading ?node) \<and> \<not> truthy (n_trailing ?node)"
    by (simp add: truthy_def)
  have fit: \<open>fits sampleLayout (fst (0 :: nat, [] :: jsstring))
      (headerContents (js ''node "value"'') (length (js ''node'') + 1) [])\<close>
    by (simp add: layout_eval printer_eval js_eval)
  note fused = printNode_fused_argument [OF h1 h2 h3 h4, of sampleEnv 2 True]
  from mp [OF conjunct1 [OF fused] bounded]
  obtain d where returned: "printNode (Suc 2) sampleEnv ?node True = Some d"
    by (elim exE conjE) (rule that)
  note sole = mp [OF conjunct2 [OF fused] alone]
  from conjunct1 [OF sole]
  have printed: "printNode (Suc 2) sampleEnv ?node True = Some (join Hardline [?G])"
    unfolding name align .
  from conjunct2 [OF sole]
  have flat: \<open>\<forall>L i m st.
        fits L (fst st) (headerContents (js ''node "value"'') (length (js ''node'') + 1) [])
        \<longrightarrow> snd (render L i m ?G st)
            = snd st @ nodeName ?node @ [spaceChar]
                @ printEntry sampleEnv (hd (n_entries ?node)) @ [spaceChar]\<close>
    unfolding name align .
  from flat [rule_format, of sampleLayout "(0, [])" 0 True] fit
  have \<open>snd (render sampleLayout 0 True ?G (0, []))
      = nodeName ?node @ [spaceChar] @ printEntry sampleEnv (hd (n_entries ?node)) @ [spaceChar]\<close>
    by simp
  also have \<open>\<dots> = js ''node "value"'' @ [spaceChar]\<close>
    using name by simp
  finally have \<open>renderText sampleLayout (join Hardline [?G]) = js ''node "value" ''\<close>
    by (simp add: renderText_def join_def js_def)
  with printed returned show ?thesis by (simp add: numeral_3_eq_3)
qed

section \<open>The header items\<close>























section \<open>Forced breaks in the header\<close>

lemma set_separate: "set (separate sep xs) \<subseteq> insert sep (set xs)"
  by (induction sep xs rule: separate.induct) auto

lemma in_separate: "x \<in> set xs \<Longrightarrow> x \<in> set (separate sep xs)"
  by (induction sep xs rule: separate.induct) auto

lemma breakItem_update:
  assumes "breakItem items"
  shows "breakItem (items[i := items ! i @ [c]])"
proof -
  from assms obtain item where "item \<in> set items" and bp: "BreakParent \<in> set item"
    unfolding breakItem_def by blast
  then obtain j where "j < length items" "items ! j = item"
    by (meson in_set_conv_nth)
  with bp have j: "j < length items" "BreakParent \<in> set (items ! j)" by simp_all
  let ?new = "items[i := items ! i @ [c]]"
  have "BreakParent \<in> set (?new ! j)"
    using j by (cases "i = j") simp_all
  moreover have "?new ! j \<in> set ?new" using j by simp
  ultimately show ?thesis unfolding breakItem_def by blast
qed

lemma breakItem_pushContinuation:
  "breakItem (header hs) \<Longrightarrow> breakItem (header (pushContinuation hs))"
  by (simp add: pushContinuation_def breakItem_update split: option.splits)

lemma breakItem_append: "breakItem items \<Longrightarrow> breakItem (items @ [item])"
  by (auto simp: breakItem_def)

lemma breakItem_pushItem:
  "breakItem (header hs) \<Longrightarrow> breakItem (header (pushItem item (pushContinuation hs)))"
  by (simp add: pushItem_def breakItem_append breakItem_pushContinuation)

lemma breakItem_pushSingleline: "breakItem (header (pushSingleline t hs))"
  by (simp add: pushSingleline_def pushLoose_def detach_def breakItem_def singlelineItem_def)

lemma breakItem_escapeStep:
  "breakItem (header hs) \<or> isSingleline tok \<Longrightarrow> breakItem (header (escapeStep whole tok hs))"
  by (cases tok) (auto simp: isSingleline_def breakItem_pushSingleline)

lemma breakItem_escapeFold:
  "breakItem (header hs) \<or> (\<exists>tok \<in> set toks. isSingleline tok)
   \<Longrightarrow> breakItem (header (fold (escapeStep whole) toks hs))"
proof (induction toks arbitrary: hs)
  case Nil
  then show ?case by simp
next
  case (Cons tok toks)
  show ?case
  proof (cases "breakItem (header hs) \<or> isSingleline tok")
    case True
    then have "breakItem (header (escapeStep whole tok hs))" by (rule breakItem_escapeStep)
    then show ?thesis using Cons.IH [of "escapeStep whole tok hs"] by simp
  next
    case False
    with Cons.prems have "\<exists>tok \<in> set toks. isSingleline tok" by auto
    then show ?thesis using Cons.IH [of "escapeStep whole tok hs"] by simp
  qed
qed

lemma breakItem_headerStep:
  assumes "headerStep E pd tok hs = Some hs'"
    and "breakItem (header hs) \<or> escapedSingleline E tok"
  shows "breakItem (header hs')"
proof (cases tok)
  case NSpace
  with assms show ?thesis by (auto simp: escapedSingleline_def)
next
  case (NLineEscape w)
  with assms show ?thesis
    using breakItem_escapeFold [of hs "docSpace E (sliceFrom1 w)" w]
    by (auto simp: escapedSingleline_def)
next
  case (NSlashdash v)
  with assms show ?thesis
    by (cases v) (auto simp: escapedSingleline_def breakItem_pushItem split: option.splits)
next
  case (NMultiline t)
  with assms show ?thesis by (auto simp: escapedSingleline_def breakItem_pushItem)
next
  case NOther
  with assms show ?thesis by (auto simp: escapedSingleline_def)
qed

lemma breakItem_headerLoop:
  "headerLoop E pd toks hs = Some hs'
   \<Longrightarrow> breakItem (header hs) \<or> (\<exists>tok \<in> set toks. escapedSingleline E tok)
   \<Longrightarrow> breakItem (header hs')"
proof (induction toks arbitrary: hs)
  case Nil
  then show ?case by simp
next
  case (Cons tok toks)
  from Cons.prems(1) obtain hs1 where
    step: "headerStep E pd tok hs = Some hs1" and rest: "headerLoop E pd toks hs1 = Some hs'"
    by (auto split: option.splits)
  show ?case
  proof (cases "breakItem (header hs) \<or> escapedSingleline E tok")
    case True
    from breakItem_headerStep [OF step True] show ?thesis
      using Cons.IH [OF rest] by simp
  next
    case False
    with Cons.prems(2) have "\<exists>tok \<in> set toks. escapedSingleline E tok" by auto
    then show ?thesis using Cons.IH [OF rest] by simp
  qed
qed

lemma breakItem_addOptionalComment:
  assumes "addOptionalComment E pd text hs = Some hs'"
    and "breakItem (header hs) \<or> (truthy text \<and> escapesComment E (orEmpty text))"
  shows "breakItem (header hs')"
proof (cases "truthy text")
  case True
  with assms(1) have "headerLoop E pd (nodeSpace E (orEmpty text)) hs = Some hs'"
    by (simp add: addOptionalComment_def addCommentToHeader_def)
  from breakItem_headerLoop [OF this] assms(2) show ?thesis
    by (auto simp: escapesComment_def)
next
  case False
  with assms show ?thesis by (simp add: addOptionalComment_def)
qed

lemma breakItem_entriesLoop:
  "entriesLoop E pd es hs = Some hs'
   \<Longrightarrow> breakItem (header hs)
       \<or> (\<exists>e \<in> set es. truthy (e_leading e) \<and> escapesComment E (orEmpty (e_leading e)))
   \<Longrightarrow> breakItem (header hs')"
proof (induction es arbitrary: hs)
  case Nil
  then show ?case by simp
next
  case (Cons e es)
  from Cons.prems(1) obtain hs1 where
    comment: "addOptionalComment E pd (e_leading e) hs = Some hs1"
    and rest: "entriesLoop E pd es (pushItem [Text (printEntry E e)] (pushContinuation hs1))
                 = Some hs'"
    by (auto split: option.splits)
  show ?case
  proof (cases "breakItem (header hs)
      \<or> (truthy (e_leading e) \<and> escapesComment E (orEmpty (e_leading e)))")
    case True
    from breakItem_addOptionalComment [OF comment True]
    have "breakItem (header (pushItem [Text (printEntry E e)] (pushContinuation hs1)))"
      by (rule breakItem_pushItem)
    then show ?thesis using Cons.IH [OF rest] by simp
  next
    case False
    with Cons.prems(2)
    have "\<exists>e \<in> set es. truthy (e_leading e) \<and> escapesComment E (orEmpty (e_leading e))"
      by auto
    then show ?thesis using Cons.IH [OF rest] by simp
  qed
qed

lemma breakItem_buildHeader:
  assumes "buildHeader E pd node = Some hs"
    and "\<exists>text \<in> set (headerTexts node). escapesComment E text"
  shows "breakItem (header hs)"
proof -
  from assms(1) obtain hs1 where
    loop: "entriesLoop E pd (headerEntries node) emptyHeader = Some hs1"
    and comment: "addOptionalComment E pd (n_beforeChildren node) hs1 = Some hs"
    by (auto simp: buildHeader_def split: option.splits)
  from assms(2) consider
    "\<exists>e \<in> set (headerEntries node).
        truthy (e_leading e) \<and> escapesComment E (orEmpty (e_leading e))"
    | "truthy (n_beforeChildren node) \<and> escapesComment E (orEmpty (n_beforeChildren node))"
    by (auto simp: headerTexts_def split: if_splits)
  then show ?thesis
  proof cases
    case 1
    with breakItem_entriesLoop [OF loop] have "breakItem (header hs1)" by simp
    with breakItem_addOptionalComment [OF comment] show ?thesis by simp
  next
    case 2
    with breakItem_addOptionalComment [OF comment] show ?thesis by simp
  qed
qed

lemma breakItem_finalItems: "breakItem (header hs) \<Longrightarrow> breakItem (finalItems node hs)"
  by (simp add: finalItems_def pushLoose_def breakItem_append breakItem_pushContinuation)

lemma breakItem_forces: "breakItem items \<Longrightarrow> forcedBreak (headerContents name align items)"
proof -
  assume "breakItem items"
  then obtain item where "item \<in> set items" "BreakParent \<in> set item"
    by (auto simp: breakItem_def)
  then have "Concat item \<in> set (separate Line (map Concat items))"
    and "breakParentHere (Concat item)"
    by (auto intro: in_separate intro!: bexI [of _ BreakParent])
  then have "\<exists>d \<in> set (separate Line (map Concat items)). breakParentHere d"
    by (rule bexI [rotated])
  then have "breakParentHere (join Line (map Concat items))"
    unfolding join_def by simp
  then show ?thesis
    by (simp add: forcedBreak_def headerContents_def)
qed

lemma soft_continuation: "\<not> containsHardline continuation \<and> \<not> breakParentHere continuation"
  by (simp add: continuation_def)

lemma soft_headerComment:
  "\<not> containsHardline (headerComment t) \<and> \<not> breakParentHere (headerComment t)"
proof -
  have key: "\<not> containsHardline (join HardlineWithoutBreakParent (map Text ls))
      \<and> \<not> breakParentHere (join HardlineWithoutBreakParent (map Text ls))" for ls
    using set_separate [of HardlineWithoutBreakParent "map Text ls"]
    unfolding join_def by auto
  show ?thesis
  proof (cases "length (splitLines t) = 1 \<or> \<not> starred (splitLines t)")
    case True
    show ?thesis
      unfolding headerComment_def Let_def by (simp only: True if_True key) simp
  next
    case False
    show ?thesis
      unfolding headerComment_def Let_def by (simp only: False if_False key) simp
  qed
qed

lemma softItems_pushContinuation:
  assumes "softItems (header hs)"
  shows "softItems (header (pushContinuation hs))"
proof (cases "lastHeaderItem hs")
  case None
  with assms show ?thesis by (simp add: pushContinuation_def)
next
  case (Some i)
  show ?thesis
  proof (cases "i < length (header hs)")
    case True
    then have "header hs ! i \<in> set (header hs)" by simp
    with assms have "\<forall>d \<in> set (header hs ! i @ [continuation]).
        \<not> containsHardline d \<and> \<not> breakParentHere d"
      using soft_continuation by (auto simp: softItems_def)
    moreover have "set ((header hs)[i := header hs ! i @ [continuation]])
        \<subseteq> insert (header hs ! i @ [continuation]) (set (header hs))"
      by (rule set_update_subset_insert)
    ultimately have "\<forall>item \<in> set ((header hs)[i := header hs ! i @ [continuation]]).
        \<forall>d \<in> set item. \<not> containsHardline d \<and> \<not> breakParentHere d"
      using assms unfolding softItems_def by blast
    then show ?thesis
      using Some by (simp add: softItems_def pushContinuation_def)
  next
    case False
    with assms Some show ?thesis by (simp add: pushContinuation_def list_update_beyond)
  qed
qed

lemma softItems_pushItem:
  assumes "softItems (header hs)"
    and "\<forall>d \<in> set item. \<not> containsHardline d \<and> \<not> breakParentHere d"
  shows "softItems (header (pushItem item (pushContinuation hs)))"
  using softItems_pushContinuation [OF assms(1)] assms(2)
  by (auto simp: softItems_def pushItem_def)

lemma softItems_headerStep:
  assumes "headerStep E pd tok hs = Some hs'" and "softToken tok" and "softItems (header hs)"
  shows "softItems (header hs')"
proof (cases tok)
  case NSpace
  with assms show ?thesis by simp
next
  case (NLineEscape w)
  with assms show ?thesis by (simp add: softToken_def)
next
  case (NSlashdash v)
  with assms obtain e where v: "v = Inl e" by (cases v) (auto simp: softToken_def)
  with assms NSlashdash show ?thesis
    using softItems_pushItem [OF assms(3), of "[Text (js ''/-''), Text (printEntry E e)]"]
    by simp
next
  case (NMultiline t)
  with assms show ?thesis
    using softItems_pushItem [OF assms(3), of "[headerComment t]"] soft_headerComment [of t]
    by simp
next
  case NOther
  with assms show ?thesis by simp
qed

lemma softItems_headerLoop:
  "headerLoop E pd toks hs = Some hs' \<Longrightarrow> \<forall>tok \<in> set toks. softToken tok
   \<Longrightarrow> softItems (header hs) \<Longrightarrow> softItems (header hs')"
proof (induction toks arbitrary: hs)
  case Nil
  then show ?case by simp
next
  case (Cons tok toks)
  from Cons.prems(1) obtain hs1 where
    step: "headerStep E pd tok hs = Some hs1" and rest: "headerLoop E pd toks hs1 = Some hs'"
    by (auto split: option.splits)
  from Cons.prems(2) have tok: "softToken tok" and toks: "\<forall>tok \<in> set toks. softToken tok"
    by simp_all
  from softItems_headerStep [OF step tok Cons.prems(3)] show ?case
    using Cons.IH [OF rest toks] by simp
qed

lemma softItems_addOptionalComment:
  assumes "addOptionalComment E pd text hs = Some hs'"
    and "truthy text \<longrightarrow> (\<forall>tok \<in> set (nodeSpace E (orEmpty text)). softToken tok)"
    and "softItems (header hs)"
  shows "softItems (header hs')"
proof (cases "truthy text")
  case True
  with assms(1) have "headerLoop E pd (nodeSpace E (orEmpty text)) hs = Some hs'"
    by (simp add: addOptionalComment_def addCommentToHeader_def)
  from softItems_headerLoop [OF this] True assms(2,3) show ?thesis by simp
next
  case False
  with assms show ?thesis by (simp add: addOptionalComment_def)
qed

lemma softItems_entriesLoop:
  "entriesLoop E pd es hs = Some hs'
   \<Longrightarrow> \<forall>e \<in> set es. truthy (e_leading e)
         \<longrightarrow> (\<forall>tok \<in> set (nodeSpace E (orEmpty (e_leading e))). softToken tok)
   \<Longrightarrow> softItems (header hs) \<Longrightarrow> softItems (header hs')"
proof (induction es arbitrary: hs)
  case Nil
  then show ?case by simp
next
  case (Cons e es)
  from Cons.prems(1) obtain hs1 where
    comment: "addOptionalComment E pd (e_leading e) hs = Some hs1"
    and rest: "entriesLoop E pd es (pushItem [Text (printEntry E e)] (pushContinuation hs1))
                 = Some hs'"
    by (auto split: option.splits)
  from Cons.prems(2) have e: "truthy (e_leading e)
      \<longrightarrow> (\<forall>tok \<in> set (nodeSpace E (orEmpty (e_leading e))). softToken tok)"
    and es: "\<forall>e \<in> set es. truthy (e_leading e)
         \<longrightarrow> (\<forall>tok \<in> set (nodeSpace E (orEmpty (e_leading e))). softToken tok)"
    by simp_all
  from softItems_addOptionalComment [OF comment e Cons.prems(3)]
  have "softItems (header (pushItem [Text (printEntry E e)] (pushContinuation hs1)))"
    by (rule softItems_pushItem) simp
  with Cons.IH [OF rest es] show ?case by simp
qed

lemma softItems_buildHeader:
  assumes "buildHeader E pd node = Some hs"
    and "\<forall>text \<in> set (headerTexts node). \<forall>tok \<in> set (nodeSpace E text). softToken tok"
  shows "softItems (header hs)"
proof -
  from assms(1) obtain hs1 where
    loop: "entriesLoop E pd (headerEntries node) emptyHeader = Some hs1"
    and comment: "addOptionalComment E pd (n_beforeChildren node) hs1 = Some hs"
    by (auto simp: buildHeader_def split: option.splits)
  from assms(2) have entries: "\<forall>e \<in> set (headerEntries node). truthy (e_leading e)
         \<longrightarrow> (\<forall>tok \<in> set (nodeSpace E (orEmpty (e_leading e))). softToken tok)"
    and before: "truthy (n_beforeChildren node)
         \<longrightarrow> (\<forall>tok \<in> set (nodeSpace E (orEmpty (n_beforeChildren node))). softToken tok)"
    by (auto simp: headerTexts_def)
  have "softItems (header emptyHeader)" by (simp add: softItems_def emptyHeader_def)
  from softItems_entriesLoop [OF loop entries this]
  show ?thesis by (rule softItems_addOptionalComment [OF comment before])
qed

lemma softItems_finalItems: "softItems (header hs) \<Longrightarrow> softItems (finalItems node hs)"
proof -
  assume soft: "softItems (header hs)"
  have "softItems (header (pushLoose [Text x] (pushContinuation hs)))" for x
    using softItems_pushContinuation [OF soft] by (auto simp: softItems_def pushLoose_def)
  with soft show ?thesis by (simp add: finalItems_def)
qed

lemma softItems_not_forced:
  assumes "softItems items"
  shows "\<not> forcedBreak (headerContents name align items)"
proof -
  have "\<not> containsHardline d \<and> \<not> breakParentHere d"
    if "d \<in> set (separate Line (map Concat items))" for d
  proof -
    from that set_separate [of Line "map Concat items"]
    consider "d = Line" | item where "item \<in> set items" "d = Concat item" by auto
    then show ?thesis
    proof cases
      case 1
      then show ?thesis by simp
    next
      case 2
      with assms show ?thesis by (auto simp: softItems_def)
    qed
  qed
  then have "\<not> containsHardline (join Line (map Concat items))
      \<and> \<not> breakParentHere (join Line (map Concat items))"
    unfolding join_def by auto
  then show ?thesis
    by (simp add: forcedBreak_def headerContents_def soft_continuation)
qed

lemma forced_break_shape:
  assumes "printNode (Suc fuel) E node isFirst = Some d"
  shows "\<exists>hs pre X post contents.
           buildHeader E (printDocument fuel E) node = Some hs
         \<and> contents = headerContents (headName E node) (nameAlign E node) (finalItems node hs)
         \<and> d = join Hardline (pre @ [X] @ post)
         \<and> (if \<not> hasChildren node \<and> \<not> truthy (childrenTrailing node) then X = Group contents
             else (\<exists>printed. X = Concat [Group contents, Indent (Concat [Hardline, printed]),
                                          Hardline, Text (js ''}'')]))
         \<and> ((\<exists>text \<in> set (headerTexts node). escapesComment E text)
              \<longrightarrow> forcedBreak contents \<and> (\<forall>L column. brokenGroup L column contents))
         \<and> ((\<forall>text \<in> set (headerTexts node). \<forall>tok \<in> set (nodeSpace E text). softToken tok)
              \<longrightarrow> \<not> forcedBreak contents
                \<and> (\<forall>L column. brokenGroup L column contents \<longleftrightarrow> \<not> fits L column contents))"
proof -
  from printNode_shape [OF assms] obtain hs pre X post where
    hs: "buildHeader E (printDocument fuel E) node = Some hs"
    and d: "d = join Hardline (pre @ [X] @ post)"
    and X: "if \<not> hasChildren node \<and> \<not> truthy (childrenTrailing node)
            then X = nodeGroup E node hs
            else (\<exists>printed. X = Concat [nodeGroup E node hs, Indent (Concat [Hardline, printed]),
                                         Hardline, Text (js ''}'')])"
    by blast
  let ?C = "headerContents (headName E node) (nameAlign E node) (finalItems node hs)"
  have G: "nodeGroup E node hs = Group ?C"
    by (simp add: nodeGroup_def headerGroup_contents)
  have forced: "(\<exists>text \<in> set (headerTexts node). escapesComment E text)
      \<longrightarrow> forcedBreak ?C \<and> (\<forall>L column. brokenGroup L column ?C)"
  proof
    assume "\<exists>text \<in> set (headerTexts node). escapesComment E text"
    from breakItem_buildHeader [OF hs this] have "breakItem (finalItems node hs)"
      by (rule breakItem_finalItems)
    then have "forcedBreak ?C" by (rule breakItem_forces)
    then show "forcedBreak ?C \<and> (\<forall>L column. brokenGroup L column ?C)"
      by (simp add: brokenGroup_def)
  qed
  have soft: "(\<forall>text \<in> set (headerTexts node). \<forall>tok \<in> set (nodeSpace E text). softToken tok)
      \<longrightarrow> \<not> forcedBreak ?C \<and> (\<forall>L column. brokenGroup L column ?C \<longleftrightarrow> \<not> fits L column ?C)"
  proof
    assume "\<forall>text \<in> set (headerTexts node). \<forall>tok \<in> set (nodeSpace E text). softToken tok"
    from softItems_buildHeader [OF hs this] have "softItems (finalItems node hs)"
      by (rule softItems_finalItems)
    then have "\<not> forcedBreak ?C" by (rule softItems_not_forced)
    then show "\<not> forcedBreak ?C \<and> (\<forall>L column. brokenGroup L column ?C \<longleftrightarrow> \<not> fits L column ?C)"
      by (simp add: brokenGroup_def)
  qed
  show ?thesis
    by (rule exI [of _ hs], rule exI [of _ pre], rule exI [of _ X], rule exI [of _ post],
        rule exI [of _ ?C])
       (intro conjI refl hs d X [unfolded G] forced soft)
qed

text \<open>
  C6, as the code has it. With bounded tokenizers and a depth of calls of the weight of the
  node, \<^verbatim>\<open>printNode\<close> returns a document in which the header group is as follows. Of the
  items that \<^verbatim>\<open>addCommentToHeader\<close> pushes, the one of a single-line comment holds the
  break marker: a header with a line escape that holds a single-line comment gives a
  header group with a forced break, which is rendered broken whatever the width. The item
  of a slashdash entry and the item of a block comment that stands outside a line escape
  hold no break marker: a header whose trivia holds only inline space, such block
  comments and slashdash entries gives a header group without forced break, which is
  broken only when it does not fit. Of a block comment inside a line escape nothing is
  said here.
\<close>

theorem addCommentToHeader_forced_break:
  assumes "boundedTokenizers E" and "weight node \<le> fuel"
  shows "\<exists>d. printNode (Suc fuel) E node isFirst = Some d
         \<and> (\<exists>hs pre X post contents.
           buildHeader E (printDocument fuel E) node = Some hs
         \<and> contents = headerContents (headName E node) (nameAlign E node) (finalItems node hs)
         \<and> d = join Hardline (pre @ [X] @ post)
         \<and> (if \<not> hasChildren node \<and> \<not> truthy (childrenTrailing node) then X = Group contents
             else (\<exists>printed. X = Concat [Group contents, Indent (Concat [Hardline, printed]),
                                          Hardline, Text (js ''}'')]))
         \<and> ((\<exists>text \<in> set (headerTexts node). escapesComment E text)
              \<longrightarrow> forcedBreak contents \<and> (\<forall>L column. brokenGroup L column contents))
         \<and> ((\<forall>text \<in> set (headerTexts node). \<forall>tok \<in> set (nodeSpace E text). softToken tok)
              \<longrightarrow> \<not> forcedBreak contents
                \<and> (\<forall>L column. brokenGroup L column contents \<longleftrightarrow> \<not> fits L column contents)))"
proof -
  from printNode_returns [OF assms]
  have "printNode (Suc fuel) E node isFirst \<noteq> None" .
  then obtain d where d: "printNode (Suc fuel) E node isFirst = Some d" by blast
  note shape = forced_break_shape [OF d]
  show ?thesis
    apply (rule exI [of _ d])
    apply (rule conjI)
     apply (rule d)
    apply (rule shape)
    done
qed

lemmas trivia_eval =
  headerTexts_def escapesComment_def escapedSingleline_def isSingleline_def softToken_def

theorem addCommentToHeader_forced_break_witness:
  "printNode 12 sampleEnv commentedProperties True
     = Some (join Hardline
         [Group (headerContents (js ''node'') (length (js ''node'') + 1)
            [[Text (js ''a=1''), continuation],
             singlelineItem (js ''// c'' @ [0x0A]),
             [Text (js ''b=2'')]])])
   \<and> forcedBreak (headerContents (js ''node'') (length (js ''node'') + 1)
        [[Text (js ''a=1''), continuation],
         singlelineItem (js ''// c'' @ [0x0A]),
         [Text (js ''b=2'')]])
   \<and> printNode 12 sampleEnv blockCommented True
     = Some (join Hardline
         [Group (headerContents (js ''node'') (length (js ''node'') + 1)
            [[headerComment (js ''/* c */''), continuation], [Text (js ''{}'')]])])
   \<and> \<not> forcedBreak (headerContents (js ''node'') (length (js ''node'') + 1)
        [[headerComment (js ''/* c */''), continuation], [Text (js ''{}'')]])"
proof -
  let ?commented = "[[Text (js ''a=1''), continuation],
                     singlelineItem (js ''// c'' @ [0x0A]),
                     [Text (js ''b=2'')]]"
  let ?block = "[[headerComment (js ''/* c */''), continuation], [Text (js ''{}'')]]"
  let ?align = "length (js ''node'') + 1"
  have bounded: "boundedTokenizers sampleEnv" by (rule sampleEnv_bounded)
  have light1: "weight commentedProperties \<le> 11"
    by (simp add: commentedProperties_def sampleProperty_def escapedComment_def orEmpty_def
        js_def)
  have light2: "weight blockCommented \<le> 11"
    by (simp add: blockCommented_def orEmpty_def js_def)
  have twelve: "(12 :: nat) = Suc 11" by simp
  have printed1: "printNode (Suc 11) sampleEnv commentedProperties True
      = Some (join Hardline [Group (headerContents (js ''node'') ?align ?commented)])"
    by (subst printNode.simps(2)) (simp add: printer_eval headerContents_def js_eval Let_def)
  have build1: "buildHeader sampleEnv (printDocument 11 sampleEnv) commentedProperties
      = Some \<lparr>header = ?commented, lastHeaderItem = Some 2\<rparr>"
    by (simp add: printer_eval js_eval)
  have name1: "headName sampleEnv commentedProperties = js ''node''"
    "nameAlign sampleEnv commentedProperties = ?align"
    by (simp_all add: printer_eval js_eval)
  have escaped: "\<exists>text \<in> set (headerTexts commentedProperties). escapesComment sampleEnv text"
    by (simp add: trivia_eval printer_eval js_eval)
  from addCommentToHeader_forced_break [OF bounded light1, of True] obtain hs contents where
    "buildHeader sampleEnv (printDocument 11 sampleEnv) commentedProperties = Some hs"
    "contents = headerContents (headName sampleEnv commentedProperties)
                  (nameAlign sampleEnv commentedProperties) (finalItems commentedProperties hs)"
    "(\<exists>text \<in> set (headerTexts commentedProperties). escapesComment sampleEnv text)
       \<longrightarrow> forcedBreak contents \<and> (\<forall>L column. brokenGroup L column contents)"
    by blast
  note found1 = this
  from found1(1) build1 have "hs = \<lparr>header = ?commented, lastHeaderItem = Some 2\<rparr>"
    by simp
  then have "finalItems commentedProperties hs = ?commented"
    by (simp add: finalItems_def hasChildren_def childrenTrailing_def truthy_def
        commentedProperties_def)
  with found1(2) name1 have "contents = headerContents (js ''node'') ?align ?commented"
    by simp
  with found1(3) escaped
  have forced: "forcedBreak (headerContents (js ''node'') ?align ?commented)"
    by blast
  have printed2: "printNode (Suc 11) sampleEnv blockCommented True
      = Some (join Hardline [Group (headerContents (js ''node'') ?align ?block)])"
    by (subst printNode.simps(2)) (simp add: printer_eval headerContents_def js_eval Let_def)
  have build2: "buildHeader sampleEnv (printDocument 11 sampleEnv) blockCommented
      = Some \<lparr>header = [[headerComment (js ''/* c */'')]], lastHeaderItem = Some 0\<rparr>"
    by (simp add: printer_eval js_eval)
  have name2: "headName sampleEnv blockCommented = js ''node''"
    "nameAlign sampleEnv blockCommented = ?align"
    by (simp_all add: printer_eval js_eval)
  have soft: "\<forall>text \<in> set (headerTexts blockCommented).
      \<forall>tok \<in> set (nodeSpace sampleEnv text). softToken tok"
    by (simp add: trivia_eval printer_eval js_eval)
  from addCommentToHeader_forced_break [OF bounded light2, of True] obtain hs' contents' where
    "buildHeader sampleEnv (printDocument 11 sampleEnv) blockCommented = Some hs'"
    "contents' = headerContents (headName sampleEnv blockCommented)
                   (nameAlign sampleEnv blockCommented) (finalItems blockCommented hs')"
    "(\<forall>text \<in> set (headerTexts blockCommented).
        \<forall>tok \<in> set (nodeSpace sampleEnv text). softToken tok)
       \<longrightarrow> \<not> forcedBreak contents'
         \<and> (\<forall>L column. brokenGroup L column contents' \<longleftrightarrow> \<not> fits L column contents')"
    by blast
  note found2 = this
  from found2(1) build2
  have "hs' = \<lparr>header = [[headerComment (js ''/* c */'')]], lastHeaderItem = Some 0\<rparr>"
    by simp
  then have "finalItems blockCommented hs' = ?block"
    by (simp add: finalItems_def hasChildren_def childrenTrailing_def truthy_def
        blockCommented_def pushLoose_def pushContinuation_def)
  with found2(2) name2 have "contents' = headerContents (js ''node'') ?align ?block"
    by simp
  with found2(3) soft
  have unforced: "\<not> forcedBreak (headerContents (js ''node'') ?align ?block)"
    by blast
  from printed1 forced printed2 unforced show ?thesis unfolding twelve by simp
qed

text \<open>
  The claim C6 as it is written fails on a slashdash entry: the item is pushed without a
  break marker, the header group has no forced break and is rendered flat, on one line.
  The same holds for a block comment outside a line escape.
\<close>

theorem addCommentToHeader_forced_break_counterexample:
  "printNode 1 sampleEnv slashdashArgument True
     = Some (join Hardline
         [Group (headerContents (js ''node'') (length (js ''node'') + 1)
            [[Text (js ''/-''), Text (js ''1''), continuation], [Text (js ''{}'')]])])
   \<and> \<not> forcedBreak (headerContents (js ''node'') (length (js ''node'') + 1)
        [[Text (js ''/-''), Text (js ''1''), continuation], [Text (js ''{}'')]])
   \<and> \<not> brokenGroup sampleLayout 0 (headerContents (js ''node'') (length (js ''node'') + 1)
        [[Text (js ''/-''), Text (js ''1''), continuation], [Text (js ''{}'')]])
   \<and> renderText sampleLayout
       (join Hardline
         [Group (headerContents (js ''node'') (length (js ''node'') + 1)
            [[Text (js ''/-''), Text (js ''1''), continuation], [Text (js ''{}'')]])])
     = js ''node /-1 {}''
   \<and> printNode 1 sampleEnv blockCommented True
     = Some (join Hardline
         [Group (headerContents (js ''node'') (length (js ''node'') + 1)
            [[headerComment (js ''/* c */''), continuation], [Text (js ''{}'')]])])
   \<and> renderText sampleLayout
       (join Hardline
         [Group (headerContents (js ''node'') (length (js ''node'') + 1)
            [[headerComment (js ''/* c */''), continuation], [Text (js ''{}'')]])])
     = js ''node /* c */ {}''"
proof -
  let ?slash = "headerContents (js ''node'') (length (js ''node'') + 1)
                  [[Text (js ''/-''), Text (js ''1''), continuation], [Text (js ''{}'')]]"
  let ?block = "headerContents (js ''node'') (length (js ''node'') + 1)
                  [[headerComment (js ''/* c */''), continuation], [Text (js ''{}'')]]"
  have p1: "printNode 1 sampleEnv slashdashArgument True = Some (join Hardline [Group ?slash])"
    by (simp add: printer_eval headerContents_def js_eval Let_def)
  have f1: "\<not> forcedBreak ?slash"
    by (simp add: layout_eval continuation_def join_def)
  have b1: "\<not> brokenGroup sampleLayout 0 ?slash"
    by (simp add: layout_eval continuation_def join_def js_eval)
  have r1: "renderText sampleLayout (join Hardline [Group ?slash]) = js ''node /-1 {}''"
    by (simp add: layout_eval continuation_def join_def js_eval)
  have p2: "printNode 1 sampleEnv blockCommented True = Some (join Hardline [Group ?block])"
    by (simp add: printer_eval headerContents_def js_eval Let_def)
  have r2: "renderText sampleLayout (join Hardline [Group ?block]) = js ''node /* c */ {}''"
    by (simp add: layout_eval printer_eval continuation_def js_eval)
  from p1 f1 b1 r1 p2 r2 show ?thesis by blast
qed

section \<open>More fuel gives the same document\<close>

text \<open>A run of \<^verbatim>\<open>printNode\<close> that returns within some depth returns the same document
  within any greater depth: the bound is an artefact of the model and not seen in the
  result.\<close>

lemma extends_lineSpaceStep:
  assumes "extends r r'" and "lineSpaceStep (\<lambda>n. r n False) tok s = Some s'"
  shows "lineSpaceStep (\<lambda>n. r' n False) tok s = Some s'"
  using assms by (cases tok) (auto simp: extends_def split: option.splits)

lemma extends_lineSpaceLoop:
  assumes "extends r r'"
  shows "lineSpaceLoop (\<lambda>n. r n False) toks s = Some s'
     \<Longrightarrow> lineSpaceLoop (\<lambda>n. r' n False) toks s = Some s'"
proof (induction toks arbitrary: s)
  case Nil
  then show ?case by simp
next
  case (Cons tok toks)
  from Cons.prems obtain s1 where
    step: "lineSpaceStep (\<lambda>n. r n False) tok s = Some s1"
    and rest: "lineSpaceLoop (\<lambda>n. r n False) toks s1 = Some s'"
    by (auto split: option.splits)
  from extends_lineSpaceStep [OF assms step] Cons.IH [OF rest] show ?case by simp
qed

lemma extends_optionalLineSpace:
  assumes "extends r r'"
    and "optionalLineSpace E (\<lambda>n. r n False) text prepare prev = Some ps"
  shows "optionalLineSpace E (\<lambda>n. r' n False) text prepare prev = Some ps"
  using assms(2) extends_lineSpaceLoop [OF assms(1)]
  by (auto simp: optionalLineSpace_def printLineSpace_def split: if_splits)

lemma extends_printNodes:
  assumes "extends r r'"
  shows "printNodes r first ns = Some ds \<Longrightarrow> printNodes r' first ns = Some ds"
proof (induction ns arbitrary: first ds)
  case Nil
  then show ?case by simp
next
  case (Cons n ns)
  from Cons.prems obtain d ds' where
    d: "r n first = Some d" and rest: "printNodes r False ns = Some ds'" and ds: "ds = d # ds'"
    by (auto split: option.splits)
  from assms d have "r' n first = Some d" by (simp add: extends_def)
  with Cons.IH [OF rest] ds show ?case by simp
qed

lemma extends_printDocumentWith:
  assumes "extends r r'" and "printDocumentWith E r document = Some d"
  shows "printDocumentWith E r' document = Some d"
proof -
  from assms(2) obtain ns ts where
    ns: "printNodes r True (d_nodes document) = Some ns"
    and ts: "optionalLineSpace E (\<lambda>n. r n False) (d_trailing document) id False = Some ts"
    and d: "d = join Hardline (join Hardline ns # ts)"
    by (auto simp: printDocumentWith_def split: option.splits)
  from extends_printNodes [OF assms(1) ns] extends_optionalLineSpace [OF assms(1) ts] d
  show ?thesis unfolding printDocumentWith_def by (simp only: option.case)
qed

lemma extends_headerStep:
  assumes "extends r r'" and "headerStep E (printDocumentWith E r) tok hs = Some hs'"
  shows "headerStep E (printDocumentWith E r') tok hs = Some hs'"
proof (cases tok)
  case (NSlashdash v)
  show ?thesis
  proof (cases v)
    case (Inl e)
    with NSlashdash assms(2) show ?thesis by simp
  next
    case (Inr document)
    with NSlashdash assms(2) obtain children where
      c: "printDocumentWith E r document = Some children"
      and hs': "hs' = pushItem [Text (js ''/-''), Concat [Text (js ''{''), children, Text (js ''}'')]]
                        (pushContinuation hs)"
      by (auto split: option.splits)
    from extends_printDocumentWith [OF assms(1) c] hs' Inr NSlashdash show ?thesis by simp
  qed
qed (use assms in auto)

lemma extends_headerLoop:
  assumes "extends r r'"
  shows "headerLoop E (printDocumentWith E r) toks hs = Some hs'
     \<Longrightarrow> headerLoop E (printDocumentWith E r') toks hs = Some hs'"
proof (induction toks arbitrary: hs)
  case Nil
  then show ?case by simp
next
  case (Cons tok toks)
  from Cons.prems obtain hs1 where
    step: "headerStep E (printDocumentWith E r) tok hs = Some hs1"
    and rest: "headerLoop E (printDocumentWith E r) toks hs1 = Some hs'"
    by (auto split: option.splits)
  from extends_headerStep [OF assms step] Cons.IH [OF rest] show ?case by simp
qed

lemma extends_addOptionalComment:
  assumes "extends r r'"
    and "addOptionalComment E (printDocumentWith E r) text hs = Some hs'"
  shows "addOptionalComment E (printDocumentWith E r') text hs = Some hs'"
  using assms(2) extends_headerLoop [OF assms(1)]
  by (auto simp: addOptionalComment_def addCommentToHeader_def split: if_splits)

lemma extends_entriesLoop:
  assumes "extends r r'"
  shows "entriesLoop E (printDocumentWith E r) es hs = Some hs'
     \<Longrightarrow> entriesLoop E (printDocumentWith E r') es hs = Some hs'"
proof (induction es arbitrary: hs)
  case Nil
  then show ?case by simp
next
  case (Cons e es)
  from Cons.prems obtain hs1 where
    comment: "addOptionalComment E (printDocumentWith E r) (e_leading e) hs = Some hs1"
    and rest: "entriesLoop E (printDocumentWith E r) es
                 (pushItem [Text (printEntry E e)] (pushContinuation hs1)) = Some hs'"
    by (auto split: option.splits)
  from extends_addOptionalComment [OF assms comment] Cons.IH [OF rest] show ?case by simp
qed

lemma extends_buildHeader:
  assumes "extends r r'" and "buildHeader E (printDocumentWith E r) node = Some hs"
  shows "buildHeader E (printDocumentWith E r') node = Some hs"
proof -
  from assms(2) obtain hs1 where
    loop: "entriesLoop E (printDocumentWith E r) (headerEntries node) emptyHeader = Some hs1"
    and comment: "addOptionalComment E (printDocumentWith E r) (n_beforeChildren node) hs1
                    = Some hs"
    by (auto simp: buildHeader_def split: option.splits)
  from extends_entriesLoop [OF assms(1) loop] extends_addOptionalComment [OF assms(1) comment]
  show ?thesis by (simp add: buildHeader_def)
qed

lemma extends_nodePart:
  assumes "extends r r'" and "nodePart E r node hs = Some X"
  shows "nodePart E r' node hs = Some X"
proof (cases "\<not> hasChildren node \<and> \<not> truthy (childrenTrailing node)")
  case True
  with assms(2) show ?thesis by (simp add: nodePart_def)
next
  case False
  with assms(2) obtain children printed where
    c: "n_children node = Some children"
    and p: "printDocumentWith E r children = Some printed"
    and X: "X = Concat [headerGroup (headName E node) (nameAlign E node)
                          (header (pushLoose [Text (js ''{'')] (pushContinuation hs))),
                        Indent (Concat [Hardline, printed]), Hardline, Text (js ''}'')]"
    by (auto simp: nodePart_def split: option.splits)
  from extends_printDocumentWith [OF assms(1) p] c X False show ?thesis
    by (auto simp: nodePart_def)
qed

lemma extends_printNodeBody:
  assumes "extends r r'" and "printNodeBody E r node b = Some d"
  shows "printNodeBody E r' node b = Some d"
proof -
  from assms(2) obtain hs lp X tp where
    hs: "buildHeader E (printDocumentWith E r) node = Some hs"
    and lp: "optionalLineSpace E (\<lambda>n. r n False) (n_leading node) id (\<not> b) = Some lp"
    and X: "nodePart E r node hs = Some X"
    and tp: "optionalLineSpace E (\<lambda>n. r n False) (n_trailing node) trailingText False = Some tp"
    and d: "d = join Hardline (lp @ [X] @ tp)"
    by (auto simp: printNodeBody_def split: option.splits)
  from extends_buildHeader [OF assms(1) hs] extends_optionalLineSpace [OF assms(1) lp]
    extends_nodePart [OF assms(1) X] extends_optionalLineSpace [OF assms(1) tp]
  show ?thesis unfolding printNodeBody_def d by (simp only: option.case)
qed

lemma printNode_Suc: "extends (printNode fuel E) (printNode (Suc fuel) E)"
proof (induction fuel)
  case 0
  show ?case by (simp add: extends_def)
next
  case (Suc fuel)
  show ?case
    unfolding extends_def
  proof (intro allI impI)
    fix n b d
    assume "printNode (Suc fuel) E n b = Some d"
    then have "printNodeBody E (printNode fuel E) n b = Some d"
      by (subst (asm) printNode.simps(2))
    from extends_printNodeBody [OF Suc this]
    have "printNodeBody E (printNode (Suc fuel) E) n b = Some d" .
    then show "printNode (Suc (Suc fuel)) E n b = Some d"
      by (subst printNode.simps(2))
  qed
qed

lemma printNode_more_fuel:
  "printNode fuel E node b = Some d \<Longrightarrow> fuel \<le> fuel' \<Longrightarrow> printNode fuel' E node b = Some d"
proof (induction fuel' arbitrary: fuel)
  case 0
  then show ?case by simp
next
  case (Suc fuel')
  show ?case
  proof (cases "fuel = Suc fuel'")
    case True
    with Suc.prems show ?thesis by simp
  next
    case False
    with Suc.prems have "fuel \<le> fuel'" by simp
    from Suc.IH [OF Suc.prems(1) this] printNode_Suc [of fuel' E]
    show ?thesis by (simp add: extends_def)
  qed
qed

section \<open>Printing twice\<close>

lemma printIdentifier_quoted:
  assumes "\<not> (length n > 0 \<and> n \<notin> reservedIdentifiers \<and> plainIdentifierRe n)"
  shows "printIdentifier n
       = repeat hashChar (numberOfHashes n) @ [quoteChar] @ n @ [quoteChar]
           @ repeat hashChar (numberOfHashes n)"
proof (cases "numberOfHashes n = 0")
  case True
  with assms show ?thesis
    unfolding printIdentifier_def Let_def by (simp add: repeat_def)
next
  case False
  with assms show ?thesis
    unfolding printIdentifier_def Let_def by simp
qed

lemma quoted_name_unique:
  assumes "printIdentifier n = [quoteChar] @ m @ [quoteChar]"
  shows "n = m"
proof (cases "length n > 0 \<and> n \<notin> reservedIdentifiers \<and> plainIdentifierRe n")
  case True
  with assms have n: "n = quoteChar # m @ [quoteChar]" by (simp add: printIdentifier_def)
  from True have "plainIdentifierRe n" by simp
  with n have "identifierStart quoteChar"
    by (simp add: plainIdentifierRe_def)
  then show ?thesis by (simp add: identifierStart_def)
next
  case False
  let ?k = "numberOfHashes n"
  from printIdentifier_quoted [OF False] assms
  have out: "repeat hashChar ?k @ [quoteChar] @ n @ [quoteChar] @ repeat hashChar ?k
      = [quoteChar] @ m @ [quoteChar]"
    by simp
  have k: "?k = 0"
  proof (rule ccontr)
    assume "?k \<noteq> 0"
    then obtain j where "?k = Suc j" by (cases ?k) auto
    with out show False by (simp add: repeat_def)
  qed
  with out have "n @ [quoteChar] = m @ [quoteChar]" by (simp add: repeat_def)
  then show ?thesis by simp
qed

text \<open>
  C1. Printing is not idempotent on a name that holds a backslash. \<^verbatim>\<open>printIdentifier\<close>
  puts such a name between double quotes as it is, where \<^verbatim>\<open>printValue\<close> escapes the
  backslash: the document whose node is named \<^verbatim>\<open>a\<close>, backslash, \<^verbatim>\<open>n\<close>, \<^verbatim>\<open>b\<close> is
  printed as the quoted string in which the backslash and the \<^verbatim>\<open>n\<close> are the escape of the
  line feed. The document named by that text, with a line feed in the name, is printed
  differently; and no other name than the first is printed as the first is.
\<close>

theorem print_name_with_backslash:
  "map_option (renderText sampleLayout) (print 1 sampleEnv backslashName)
     = Some [quoteChar, 0x61, backslashChar, 0x6E, 0x62, quoteChar, spaceChar, 0x0A]
   \<and> map_option (renderText sampleLayout) (print 1 sampleEnv linefeedName)
     = Some [quoteChar, 0x61, 0x0A, 0x62, quoteChar, spaceChar, 0x0A]
   \<and> printValue ts (VString [0x61, backslashChar, 0x6E, 0x62])
     = [quoteChar, 0x61, backslashChar, backslashChar, 0x6E, 0x62, quoteChar]
   \<and> (\<forall>n. printIdentifier n = printIdentifier [0x61, backslashChar, 0x6E, 0x62]
          \<longleftrightarrow> n = [0x61, backslashChar, 0x6E, 0x62])"
proof -
  have first: "map_option (renderText sampleLayout) (print 1 sampleEnv backslashName)
     = Some [quoteChar, 0x61, backslashChar, 0x6E, 0x62, quoteChar, spaceChar, 0x0A]"
    by (simp add: printer_eval js_eval Let_def) (simp add: layout_eval)
  have second: "map_option (renderText sampleLayout) (print 1 sampleEnv linefeedName)
     = Some [quoteChar, 0x61, 0x0A, 0x62, quoteChar, spaceChar, 0x0A]"
    by (simp add: printer_eval js_eval Let_def) (simp add: layout_eval)
  have asValue: "printValue ts (VString [0x61, backslashChar, 0x6E, 0x62])
     = [quoteChar, 0x61, backslashChar, backslashChar, 0x6E, 0x62, quoteChar]"
    by (simp add: js_eval)
  have printed: "printIdentifier [0x61, backslashChar, 0x6E, 0x62]
      = [quoteChar] @ [0x61, backslashChar, 0x6E, 0x62] @ [quoteChar]"
    by (simp add: printIdentifier_def js_eval)
  have only: "printIdentifier n = printIdentifier [0x61, backslashChar, 0x6E, 0x62]
          \<longleftrightarrow> n = [0x61, backslashChar, 0x6E, 0x62]" for n
  proof
    assume "printIdentifier n = printIdentifier [0x61, backslashChar, 0x6E, 0x62]"
    then have "printIdentifier n = [quoteChar] @ [0x61, backslashChar, 0x6E, 0x62] @ [quoteChar]"
      by (simp only: printed)
    then show "n = [0x61, backslashChar, 0x6E, 0x62]"
      by (rule quoted_name_unique)
  next
    assume "n = [0x61, backslashChar, 0x6E, 0x62]"
    then show "printIdentifier n = printIdentifier [0x61, backslashChar, 0x6E, 0x62]" by simp
  qed
  from first second asValue only show ?thesis by blast
qed

end
